theory Spec2Isabelle
  imports Complex_Main "HOL-Library.Word"
begin

section \<open>Errors raised by the modelled code\<close>

text \<open>
  The Python exceptions that the modelled functions can raise:
  \<^item> \<open>ZeroDivisionError\<close>: \<^verbatim>\<open>Nx // num_procs\<close> with \<^verbatim>\<open>num_procs == 0\<close>;
  \<^item> \<open>ValueError\<close>: \<^verbatim>\<open>ghost.reshape(1, Ny)\<close> on a ghost row whose size is not \<^verbatim>\<open>Ny\<close>;
  \<^item> \<open>IndexError\<close>: \<^verbatim>\<open>grid[0, :]\<close> or \<^verbatim>\<open>grid[-1, :]\<close> on a block with no rows;
  \<^item> \<open>ConnectionError\<close>: \<^verbatim>\<open>recv_exact\<close> on a channel that the peer has closed;
  \<^item> \<open>InvalidConfiguration\<close> and \<open>SetupFailure\<close>: the two error kinds the
    specification names; no statement of the source raises them, they are part of the
    type so that the claims about them can be stated.
\<close>

datatype error =
  ZeroDivisionError | ValueError | IndexError | ConnectionError
  | InvalidConfiguration | SetupFailure

section \<open>Partition planner (worker.py, lines 49--52)\<close>

text \<open>
  \<^verbatim>\<open>
  rows_per = Nx // num_procs
  i0 = rank * rows_per
  i1 = Nx if rank == num_procs - 1 else (rank + 1) * rows_per
  my_rows = i1 - i0
  \<close>
  Python integers are unbounded and \<^verbatim>\<open>//\<close> rounds towards minus infinity, as \<open>div\<close> on
  \<open>int\<close> does; division by zero raises.
\<close>

definition planner :: "int \<Rightarrow> int \<Rightarrow> int \<Rightarrow> error + (int \<times> int)" where
  "planner Nx num_procs rank =
     (if num_procs = 0 then Inl ZeroDivisionError
      else
        let rp = Nx div num_procs;
            i0 = rank * rp;
            i1 = (if rank = num_procs - 1 then Nx else (rank + 1) * rp)
        in Inr (i0, i1))"

text \<open>The row range of a rank as a set of global row indices, when the planner returns.\<close>

definition range_of :: "int \<Rightarrow> int \<Rightarrow> int \<Rightarrow> int set" where
  "range_of Nx num_procs rank =
     (case planner Nx num_procs rank of
        Inl e \<Rightarrow> {}
      | Inr (i0, i1) \<Rightarrow> {i0 ..< i1})"

definition my_rows :: "int \<Rightarrow> int \<Rightarrow> int \<Rightarrow> error + int" where
  "my_rows Nx num_procs rank =
     (case planner Nx num_procs rank of
        Inl e \<Rightarrow> Inl e
      | Inr (i0, i1) \<Rightarrow> Inr (i1 - i0))"

section \<open>Cells, arrays and random draws\<close>

text \<open>
  \<^verbatim>\<open>EMPTY, TREE, BURN = 0, 1, 2\<close>. Grids are numpy arrays of dtype \<^verbatim>\<open>int8\<close>: a cell is an
  8-bit word, so a block may hold any of the 256 values, not only the three codes.
\<close>

type_synonym cell = "8 word"

definition EMPTY :: cell where "EMPTY = 0"
definition TREE :: cell where "TREE = 1"
definition BURN :: cell where "BURN = 2"

text \<open>
  A two-dimensional array: its number of columns (the second component of \<^verbatim>\<open>shape\<close>, which
  an array with no rows still has) and its rows. A numpy array is rectangular: \<open>wf_array\<close>.
  A ghost row is a one-dimensional array, the list of its elements, or \<^verbatim>\<open>None\<close>.
\<close>

record ndarray =
  ncols :: nat
  rows :: "cell list list"

definition nrows :: "ndarray \<Rightarrow> nat" where
  "nrows a = length (rows a)"

definition wf_array :: "ndarray \<Rightarrow> bool" where
  "wf_array a = list_all (\<lambda>r. length r = ncols a) (rows a)"

definition valid_cell :: "cell \<Rightarrow> bool" where
  "valid_cell c = (c = EMPTY \<or> c = TREE \<or> c = BURN)"

definition valid_cells :: "cell list list \<Rightarrow> bool" where
  "valid_cells rs = list_all (list_all valid_cell) rs"

text \<open>
  \<^verbatim>\<open>np.random.random()\<close> reads and advances the process's generator. The generator is the
  stream \<open>g\<close> of the values it will return, each in \<open>[0, 1)\<close> (\<open>unit_draws\<close>), together
  with the number \<open>k\<close> of values drawn so far: the next call returns \<open>g k\<close>. Floats are
  compared as the real numbers they stand for; \<^verbatim>\<open>p\<close> and \<^verbatim>\<open>f\<close> are any reals.
\<close>

type_synonym rng = "nat \<Rightarrow> real"

definition unit_draws :: "rng \<Rightarrow> bool" where
  "unit_draws g = (\<forall>n. 0 \<le> g n \<and> g n < 1)"

section \<open>The update rule of the distributed version (forest\_fire\_simulacao.py)\<close>

text \<open>\<^verbatim>\<open>new[i, j] = v\<close> on the rows of a two-dimensional array.\<close>

definition setitem :: "'a list list \<Rightarrow> nat \<Rightarrow> nat \<Rightarrow> 'a \<Rightarrow> 'a list list" where
  "setitem a i j v = a[i := (a ! i)[j := v]]"

text \<open>
  Lines 33--34:
  \<^verbatim>\<open>np.full((1, Ny), EMPTY, dtype=np.int8) if ghost is None else ghost.reshape(1, Ny)\<close>.
  \<^verbatim>\<open>reshape\<close> raises ValueError unless the ghost row has exactly \<open>Ny\<close> elements.
\<close>

definition pad_row :: "nat \<Rightarrow> cell list option \<Rightarrow> error + cell list" where
  "pad_row Ny ghost =
     (case ghost of
        None \<Rightarrow> Inr (replicate Ny EMPTY)
      | Some v \<Rightarrow> if length v = Ny then Inr v else Inl ValueError)"

text \<open>
  Lines 54--74, the scan of the Moore neighbourhood of the cell at local position
  \<open>(i, j)\<close>, which is \<open>padded[i+1, j]\<close>. The two \<^verbatim>\<open>for\<close> loops over \<^verbatim>\<open>(-1, 0, 1)\<close> stop at the
  first burning neighbour; \<open>list_ex\<close> over the same tuples is that search. \<open>di\<close> and \<open>dj\<close>
  are Python integers.
\<close>

definition neighbour_burning :: "cell list list \<Rightarrow> nat \<Rightarrow> nat \<Rightarrow> nat \<Rightarrow> bool" where
  "neighbour_burning padded Ny i j =
     list_ex (\<lambda>di. list_ex (\<lambda>dj.
        \<not> (di = 0 \<and> dj = 0) \<and>
        (let ni = int i + 1 + di; nj = int j + dj
         in \<not> (nj < 0 \<or> nj \<ge> int Ny) \<and> padded ! nat ni ! nat nj = BURN))
       [- 1, 0, 1 :: int]) [- 1, 0, 1 :: int]"

text \<open>
  Lines 45--93, the body of the loops for one cell. The state is the output block \<open>new\<close>
  and the number \<open>k\<close> of random values drawn so far.
\<close>

definition cell_update ::
  "cell list list \<Rightarrow> nat \<Rightarrow> real \<Rightarrow> real \<Rightarrow> rng \<Rightarrow> nat \<Rightarrow> nat \<Rightarrow>
   cell list list \<times> nat \<Rightarrow> cell list list \<times> nat" where
  "cell_update padded Ny p f g i j st =
     (case st of (new, k) \<Rightarrow>
        let s = padded ! (i + 1) ! j in
        if s = BURN then (setitem new i j EMPTY, k)
        else if s = TREE then
          (if neighbour_burning padded Ny i j then (setitem new i j BURN, k)
           else if g k < f then (setitem new i j BURN, Suc k)
           else (setitem new i j TREE, Suc k))
        else
          (if g k < p then (setitem new i j TREE, Suc k)
           else (setitem new i j EMPTY, Suc k)))"

text \<open>
  \<^verbatim>\<open>update_block(block, top_ghost, bottom_ghost, p, f)\<close>: the padded snapshot is the top
  ghost row (or a row of EMPTY), the rows of the block, the bottom ghost row (or a row of
  EMPTY); \<open>new\<close> starts as a copy of the block; the loops run over the rows and, inside, the
  columns. The result is the new block and the generator's position.
\<close>

definition update_block ::
  "ndarray \<Rightarrow> cell list option \<Rightarrow> cell list option \<Rightarrow> real \<Rightarrow> real \<Rightarrow> rng \<Rightarrow> nat \<Rightarrow>
   error + (ndarray \<times> nat)" where
  "update_block block top_ghost bottom_ghost p f g k =
     (let Ny = ncols block; nr = length (rows block) in
      case pad_row Ny top_ghost of
        Inl e \<Rightarrow> Inl e
      | Inr pad_top \<Rightarrow>
          (case pad_row Ny bottom_ghost of
             Inl e \<Rightarrow> Inl e
           | Inr pad_bottom \<Rightarrow>
               let padded = [pad_top] @ rows block @ [pad_bottom];
                   new = rows block;
                   st = fold (\<lambda>i. fold (\<lambda>j. cell_update padded Ny p f g i j) [0..<Ny])
                          [0..<nr] (new, k)
               in Inr (block\<lparr>rows := fst st\<rparr>, snd st)))"

section \<open>The update rule on a store of arrays\<close>

text \<open>
  Numpy arrays are mutable objects, and \<^verbatim>\<open>update_block\<close> writes into one with
  \<^verbatim>\<open>new[i, j] = ...\<close>. To see which arrays it writes, the same function is modelled a
  second time on a store: a list of arrays, an array object being the address (index) of
  its contents; a new array is appended at the end. A one-dimensional ghost row is an
  array of one row.
  \<^item> \<^verbatim>\<open>np.full((1, Ny), EMPTY, dtype=np.int8)\<close> allocates an array;
  \<^item> \<^verbatim>\<open>ghost.reshape(1, Ny)\<close> allocates nothing: it is a view of the elements of \<^verbatim>\<open>ghost\<close>
    in row-major order, read by \<^verbatim>\<open>np.vstack\<close> in the next statement and never written
    (ValueError unless there are \<open>Ny\<close> elements);
  \<^item> \<^verbatim>\<open>np.vstack\<close> and \<^verbatim>\<open>block.copy()\<close> allocate arrays holding copies;
  \<^item> \<^verbatim>\<open>padded[i, j]\<close> reads the store and \<^verbatim>\<open>new[i, j] = v\<close> updates it in place.
\<close>

type_synonym addr = nat
type_synonym store = "ndarray list"

definition alloc :: "store \<Rightarrow> ndarray \<Rightarrow> addr \<times> store" where
  "alloc h a = (length h, h @ [a])"

definition store_setitem :: "store \<Rightarrow> addr \<Rightarrow> nat \<Rightarrow> nat \<Rightarrow> cell \<Rightarrow> store" where
  "store_setitem h a i j v = h[a := (h ! a)\<lparr>rows := setitem (rows (h ! a)) i j v\<rparr>]"

definition pad_row_store :: "store \<Rightarrow> nat \<Rightarrow> addr option \<Rightarrow> error + (cell list \<times> store)" where
  "pad_row_store h Ny ghost =
     (case ghost of
        None \<Rightarrow>
          (case alloc h \<lparr>ncols = Ny, rows = [replicate Ny EMPTY]\<rparr> of
             (a, h') \<Rightarrow> Inr (concat (rows (h' ! a)), h'))
      | Some a \<Rightarrow>
          if length (concat (rows (h ! a))) = Ny then Inr (concat (rows (h ! a)), h)
          else Inl ValueError)"

definition cell_update_store ::
  "addr \<Rightarrow> addr \<Rightarrow> nat \<Rightarrow> real \<Rightarrow> real \<Rightarrow> rng \<Rightarrow> nat \<Rightarrow> nat \<Rightarrow> store \<times> nat \<Rightarrow> store \<times> nat" where
  "cell_update_store padded new Ny p f g i j st =
     (case st of (h, k) \<Rightarrow>
        let s = rows (h ! padded) ! (i + 1) ! j in
        if s = BURN then (store_setitem h new i j EMPTY, k)
        else if s = TREE then
          (if neighbour_burning (rows (h ! padded)) Ny i j then (store_setitem h new i j BURN, k)
           else if g k < f then (store_setitem h new i j BURN, Suc k)
           else (store_setitem h new i j TREE, Suc k))
        else
          (if g k < p then (store_setitem h new i j TREE, Suc k)
           else (store_setitem h new i j EMPTY, Suc k)))"

definition update_block_store ::
  "store \<Rightarrow> addr \<Rightarrow> addr option \<Rightarrow> addr option \<Rightarrow> real \<Rightarrow> real \<Rightarrow> rng \<Rightarrow> nat \<Rightarrow>
   error + (addr \<times> store \<times> nat)" where
  "update_block_store h block top_ghost bottom_ghost p f g k =
     (let Ny = ncols (h ! block); nr = length (rows (h ! block)) in
      case pad_row_store h Ny top_ghost of
        Inl e \<Rightarrow> Inl e
      | Inr (pad_top, h1) \<Rightarrow>
          (case pad_row_store h1 Ny bottom_ghost of
             Inl e \<Rightarrow> Inl e
           | Inr (pad_bottom, h2) \<Rightarrow>
               (case alloc h2 \<lparr>ncols = Ny, rows = [pad_top] @ rows (h2 ! block) @ [pad_bottom]\<rparr> of
                  (padded, h3) \<Rightarrow>
                    (case alloc h3 (h3 ! block) of
                       (new, h4) \<Rightarrow>
                         let st = fold (\<lambda>i. fold (\<lambda>j. cell_update_store padded new Ny p f g i j)
                                              [0..<Ny]) [0..<nr] (h4, k)
                         in Inr (new, fst st, snd st)))))"

section \<open>The sequential step (forest\_fire\_sequencial.py, lines 8--60)\<close>

text \<open>
  \<^verbatim>\<open>step(grid, p, f)\<close> works on whole arrays. The numpy operations it uses, on lists of
  rows: \<^verbatim>\<open>a == c\<close>, \<^verbatim>\<open>np.zeros_like\<close>, \<^verbatim>\<open>a & b\<close>, \<^verbatim>\<open>r < x\<close>, the masked assignment
  \<^verbatim>\<open>new[m] = v\<close>, and \<^verbatim>\<open>np.random.random(size=(Nx, Ny))\<close>, which draws \<open>Nx * Ny\<close> values and
  fills the array row by row.
\<close>

definition eq_mask :: "cell list list \<Rightarrow> cell \<Rightarrow> bool list list" where
  "eq_mask a c = map (map (\<lambda>x. x = c)) a"

definition zeros_like :: "bool list list \<Rightarrow> bool list list" where
  "zeros_like a = map (map (\<lambda>x. False)) a"

definition and_mask :: "bool list list \<Rightarrow> bool list list \<Rightarrow> bool list list" where
  "and_mask a b = map2 (map2 (\<and>)) a b"

definition lt_mask :: "real list list \<Rightarrow> real \<Rightarrow> bool list list" where
  "lt_mask r x = map (map (\<lambda>v. v < x)) r"

definition assign_where :: "cell list list \<Rightarrow> bool list list \<Rightarrow> cell \<Rightarrow> cell list list" where
  "assign_where a m v = map2 (map2 (\<lambda>x b. if b then v else x)) a m"

definition random_array :: "rng \<Rightarrow> nat \<Rightarrow> nat \<Rightarrow> nat \<Rightarrow> real list list" where
  "random_array g k Nx Ny = map (\<lambda>i. map (\<lambda>j. g (k + i * Ny + j)) [0..<Ny]) [0..<Nx]"

text \<open>
  The three slices that \<^verbatim>\<open>step\<close> uses along an axis of length \<open>n\<close>: \<^verbatim>\<open>:\<close> selects the
  indices \<open>[0, n)\<close>, \<^verbatim>\<open>:-1\<close> selects \<open>[0, n - 1)\<close> and \<^verbatim>\<open>1:\<close> selects \<open>[1, n)\<close>.
  \<open>getslice\<close> is the array read through a pair of slices, \<^verbatim>\<open>g[sr, sc]\<close>; \<open>ior_slice\<close> is
  \<^verbatim>\<open>mask[sr, sc] |= rhs\<close>, which ors \<open>rhs\<close> into the selected positions of the mask and
  leaves the others as they are (in \<^verbatim>\<open>step\<close> both sides always have the same shape).
\<close>

datatype slice = Full | ButLast | ButFirst

fun slice_start :: "slice \<Rightarrow> nat" where
  "slice_start Full = 0"
| "slice_start ButLast = 0"
| "slice_start ButFirst = 1"

fun slice_stop :: "slice \<Rightarrow> nat \<Rightarrow> nat" where
  "slice_stop Full n = n"
| "slice_stop ButLast n = n - 1"
| "slice_stop ButFirst n = n"

definition getslice :: "bool list list \<Rightarrow> nat \<Rightarrow> nat \<Rightarrow> slice \<Rightarrow> slice \<Rightarrow> bool list list" where
  "getslice a Nx Ny sr sc =
     map (\<lambda>i. map (\<lambda>j. a ! i ! j) [slice_start sc ..< slice_stop sc Ny])
       [slice_start sr ..< slice_stop sr Nx]"

definition ior_slice ::
  "bool list list \<Rightarrow> nat \<Rightarrow> nat \<Rightarrow> slice \<Rightarrow> slice \<Rightarrow> bool list list \<Rightarrow> bool list list" where
  "ior_slice msk Nx Ny sr sc rhs =
     map (\<lambda>i. map (\<lambda>j.
            if slice_start sr \<le> i \<and> i < slice_stop sr Nx
               \<and> slice_start sc \<le> j \<and> j < slice_stop sc Ny
            then msk ! i ! j \<or> rhs ! (i - slice_start sr) ! (j - slice_start sc)
            else msk ! i ! j) [0..<Ny]) [0..<Nx]"

text \<open>
  \<^verbatim>\<open>step\<close>, statement by statement; \<open>gb\<close> is the source's \<^verbatim>\<open>g\<close> and \<open>msk\<close> its \<^verbatim>\<open>mask\<close>. The two calls of
  \<^verbatim>\<open>np.random.random(size=grid.shape)\<close> draw \<open>Nx * Ny\<close> values each.
\<close>

definition step :: "ndarray \<Rightarrow> real \<Rightarrow> real \<Rightarrow> rng \<Rightarrow> nat \<Rightarrow> ndarray \<times> nat" where
  "step grid p f g k =
     (let Nx = length (rows grid); Ny = ncols grid;
          a = rows grid;
          new = a;
          new = assign_where new (eq_mask a BURN) EMPTY;
          gb = eq_mask a BURN;
          msk = zeros_like gb;
          msk = ior_slice msk Nx Ny ButLast Full (getslice gb Nx Ny ButFirst Full);
          msk = ior_slice msk Nx Ny ButFirst Full (getslice gb Nx Ny ButLast Full);
          msk = ior_slice msk Nx Ny Full ButLast (getslice gb Nx Ny Full ButFirst);
          msk = ior_slice msk Nx Ny Full ButFirst (getslice gb Nx Ny Full ButLast);
          msk = ior_slice msk Nx Ny ButLast ButLast (getslice gb Nx Ny ButFirst ButFirst);
          msk = ior_slice msk Nx Ny ButLast ButFirst (getslice gb Nx Ny ButFirst ButLast);
          msk = ior_slice msk Nx Ny ButFirst ButLast (getslice gb Nx Ny ButLast ButFirst);
          msk = ior_slice msk Nx Ny ButFirst ButFirst (getslice gb Nx Ny ButLast ButLast);
          tree_mask = eq_mask a TREE;
          catch = and_mask tree_mask msk;
          ignite = and_mask (lt_mask (random_array g k Nx Ny) f) tree_mask;
          grow = and_mask (lt_mask (random_array g (k + Nx * Ny) Nx Ny) p) (eq_mask a EMPTY);
          new = assign_where new catch BURN;
          new = assign_where new ignite BURN;
          new = assign_where new grow TREE
      in (grid\<lparr>rows := new\<rparr>, k + 2 * Nx * Ny))"

section \<open>One step of a worker (worker.py, lines 107--141)\<close>

text \<open>
  \<^verbatim>\<open>
  top_row = grid[0, :]
  bottom_row = grid[-1, :]
  if up_sock:   send_row(up_sock, top_row);      topGhost = recv_row(up_sock, Ny)
  else:         topGhost = None
  if down_sock: send_row(down_sock, bottom_row); bottomGhost = recv_row(down_sock, Ny)
  else:         bottomGhost = None
  new_grid = update_block(grid, topGhost, bottomGhost, p, f)
  grid[:, :] = new_grid
  \<close>
  The workers form a chain: \<^verbatim>\<open>up_sock\<close> exists when \<open>rank > 0\<close> and \<^verbatim>\<open>down_sock\<close> when
  \<open>rank < num_procs - 1\<close>. All workers run the same step, so what \<^verbatim>\<open>recv_row\<close> reads from
  the channel to a neighbour is the row that this neighbour sent on it in the same step:
  the \<^verbatim>\<open>bottom_row\<close> of the worker above, the \<^verbatim>\<open>top_row\<close> of the worker below (an \<^verbatim>\<open>int8\<close> row
  is its own byte string). A neighbour that raised before sending leaves the channel
  closed, and \<^verbatim>\<open>recv_exact\<close> raises ConnectionError. \<open>grids\<close> are the blocks of all workers
  at the start of the step, by rank.
\<close>

definition top_row :: "ndarray \<Rightarrow> error + cell list" where
  "top_row grid = (if rows grid = [] then Inl IndexError else Inr (hd (rows grid)))"

definition bottom_row :: "ndarray \<Rightarrow> error + cell list" where
  "bottom_row grid = (if rows grid = [] then Inl IndexError else Inr (last (rows grid)))"

definition recv_row :: "error + cell list \<Rightarrow> error + cell list option" where
  "recv_row sent = (case sent of Inl e \<Rightarrow> Inl ConnectionError | Inr row \<Rightarrow> Inr (Some row))"

definition worker_step ::
  "ndarray list \<Rightarrow> nat \<Rightarrow> real \<Rightarrow> real \<Rightarrow> rng \<Rightarrow> nat \<Rightarrow> error + (ndarray \<times> nat)" where
  "worker_step grids rank p f g k =
     (let grid = grids ! rank; num_procs = length grids in
      case top_row grid of
        Inl e \<Rightarrow> Inl e
      | Inr top_r \<Rightarrow>
     (case bottom_row grid of
        Inl e \<Rightarrow> Inl e
      | Inr bottom_r \<Rightarrow>
     (case (if rank > 0 then recv_row (bottom_row (grids ! (rank - 1))) else Inr None) of
        Inl e \<Rightarrow> Inl e
      | Inr topGhost \<Rightarrow>
     (case (if rank < num_procs - 1 then recv_row (top_row (grids ! (rank + 1))) else Inr None) of
        Inl e \<Rightarrow> Inl e
      | Inr bottomGhost \<Rightarrow> update_block grid topGhost bottomGhost p f g k))))"

section \<open>Connection to the upper neighbour (worker.py, lines 65, 80--92)\<close>

text \<open>
  \<^verbatim>\<open>
  up_sock = None
  if rank > 0:
      up_port = base_port + (rank - 1)
      s = socket.socket(socket.AF_INET, socket.SOCK_STREAM)
      while True:
          try:
              s.connect(('127.0.0.1', up_port))
              up_sock = s
              break
          except Exception:
              time.sleep(0.05)
  \<close>
  The network is the sequence \<open>env\<close> of what the successive calls of \<^verbatim>\<open>s.connect\<close> do:
  return, raise ConnectionRefusedError (the peer is not listening yet), or raise any other
  exception (an unreachable address, ...). The loop has no bound; a run that never leaves
  it is the value \<open>None\<close>. The result records whether \<^verbatim>\<open>up_sock\<close> is set, the number of
  calls of \<^verbatim>\<open>connect\<close> and the number of calls of \<^verbatim>\<open>time.sleep(0.05)\<close>.
\<close>

datatype connect_outcome = Connects | Refused | OtherFailure

record link =
  up_sock :: bool
  attempts :: nat
  sleeps :: nat

partial_function (option) connect_loop ::
  "(nat \<Rightarrow> connect_outcome) \<Rightarrow> nat \<Rightarrow> (error + link) option" where
  "connect_loop env n =
     (case env n of
        Connects \<Rightarrow> Some (Inr \<lparr>up_sock = True, attempts = Suc n, sleeps = n\<rparr>)
      | Refused \<Rightarrow> connect_loop env (Suc n)
      | OtherFailure \<Rightarrow> connect_loop env (Suc n))"

definition connect_up :: "int \<Rightarrow> (nat \<Rightarrow> connect_outcome) \<Rightarrow> (error + link) option" where
  "connect_up rank env =
     (if rank > 0 then connect_loop env 0
      else Some (Inr \<lparr>up_sock = False, attempts = 0, sleeps = 0\<rparr>))"

section \<open>Auxiliary definitions\<close>

text \<open>
  The value that the loop body writes at \<open>(i, j)\<close> and the generator's position after
  it, as a function of the padded snapshot and the position \<open>k\<close> before it.
\<close>

definition next_cell ::
  "cell list list \<Rightarrow> nat \<Rightarrow> real \<Rightarrow> real \<Rightarrow> rng \<Rightarrow> nat \<Rightarrow> nat \<Rightarrow> nat \<Rightarrow> cell \<times> nat" where
  "next_cell padded Ny p f g i j k =
     (let s = padded ! (i + 1) ! j in
      if s = BURN then (EMPTY, k)
      else if s = TREE then
        (if neighbour_burning padded Ny i j then (BURN, k)
         else if g k < f then (BURN, Suc k)
         else (TREE, Suc k))
      else (if g k < p then (TREE, Suc k) else (EMPTY, Suc k)))"

text \<open>
  The values written by the first \<open>m\<close> iterations of the inner loop on row \<open>i\<close>, and by
  the first \<open>n\<close> iterations of the outer loop, with the generator's position threaded
  through in the order of the loops.
\<close>

primrec row_vals ::
  "cell list list \<Rightarrow> nat \<Rightarrow> real \<Rightarrow> real \<Rightarrow> rng \<Rightarrow> nat \<Rightarrow> nat \<Rightarrow> nat \<Rightarrow> cell list \<times> nat" where
  "row_vals padded Ny p f g i 0 k = ([], k)"
| "row_vals padded Ny p f g i (Suc m) k =
     (case row_vals padded Ny p f g i m k of (vs, k') \<Rightarrow>
        case next_cell padded Ny p f g i m k' of (v, k'') \<Rightarrow> (vs @ [v], k''))"

primrec block_vals ::
  "cell list list \<Rightarrow> nat \<Rightarrow> real \<Rightarrow> real \<Rightarrow> rng \<Rightarrow> nat \<Rightarrow> nat \<Rightarrow> cell list list \<times> nat" where
  "block_vals padded Ny p f g 0 k = ([], k)"
| "block_vals padded Ny p f g (Suc n) k =
     (case block_vals padded Ny p f g n k of (rs, k') \<Rightarrow>
        case row_vals padded Ny p f g n Ny k' of (r, k'') \<Rightarrow> (rs @ [r], k''))"

text \<open>
  A ghost row that \<^verbatim>\<open>reshape(1, Ny)\<close> accepts; the row it stands for in the padded
  snapshot; the padded snapshot of a block and its two ghost rows.
\<close>

definition ghost_ok :: "nat \<Rightarrow> cell list option \<Rightarrow> bool" where
  "ghost_ok Ny ghost = (case ghost of None \<Rightarrow> True | Some v \<Rightarrow> length v = Ny)"

definition ghost_or_empty :: "nat \<Rightarrow> cell list option \<Rightarrow> cell list" where
  "ghost_or_empty Ny ghost = (case ghost of None \<Rightarrow> replicate Ny EMPTY | Some v \<Rightarrow> v)"

definition padded_of :: "ndarray \<Rightarrow> cell list option \<Rightarrow> cell list option \<Rightarrow> cell list list" where
  "padded_of block top_ghost bottom_ghost =
     [ghost_or_empty (ncols block) top_ghost] @ rows block
       @ [ghost_or_empty (ncols block) bottom_ghost]"

text \<open>
  The Moore neighbourhood in the words of the specification: the positions of the padded
  snapshot around the cell at local \<open>(i, j)\<close>, which sits at row \<open>i + 1\<close> of the snapshot:
  rows \<open>i\<close>, \<open>i + 1\<close>, \<open>i + 2\<close> and columns \<open>j - 1\<close>, \<open>j\<close>, \<open>j + 1\<close>, without the
  cell itself and without the columns below 0 or from \<open>Ny\<close> on (no wraparound).
\<close>

definition moore_positions :: "nat \<Rightarrow> nat \<Rightarrow> nat \<Rightarrow> (nat \<times> nat) list" where
  "moore_positions Ny i j =
     map (\<lambda>(r, c). (nat r, nat c))
       (filter (\<lambda>(r, c). (r, c) \<noteq> (int i + 1, int j) \<and> 0 \<le> c \<and> c < int Ny)
          (List.product [int i, int i + 1, int i + 2] [int j - 1, int j, int j + 1]))"

definition moore_burning :: "cell list list \<Rightarrow> nat \<Rightarrow> nat \<Rightarrow> nat \<Rightarrow> bool" where
  "moore_burning padded Ny i j =
     (\<exists>(r, c) \<in> set (moore_positions Ny i j). padded ! r ! c = BURN)"

text \<open>
  The update rule without random draws: what the loop body writes when \<open>p = 0\<close>, \<open>f = 0\<close>
  and the draws are not negative.
\<close>

definition det_cell :: "cell list list \<Rightarrow> nat \<Rightarrow> nat \<Rightarrow> nat \<Rightarrow> cell" where
  "det_cell padded Ny i j =
     (let s = padded ! (i + 1) ! j in
      if s = BURN then EMPTY
      else if s = TREE then (if neighbour_burning padded Ny i j then BURN else TREE)
      else EMPTY)"

definition det_rows :: "cell list list \<Rightarrow> nat \<Rightarrow> nat \<Rightarrow> cell list list" where
  "det_rows padded Ny n = map (\<lambda>i. map (\<lambda>j. det_cell padded Ny i j) [0..<Ny]) [0..<n]"

text \<open>The number of rows in the blocks before block \<open>r\<close> of a list of blocks.\<close>

definition offset :: "'a list list \<Rightarrow> nat \<Rightarrow> nat" where
  "offset xss r = length (concat (take r xss))"

text \<open>
  The ghost rows that a worker receives in a step in which every block has a row: the last
  row of the block above and the first row of the block below.
\<close>

definition ghost_above :: "ndarray list \<Rightarrow> nat \<Rightarrow> cell list option" where
  "ghost_above grids r = (if r > 0 then Some (last (rows (grids ! (r - 1)))) else None)"

definition ghost_below :: "ndarray list \<Rightarrow> nat \<Rightarrow> cell list option" where
  "ghost_below grids r =
     (if r + 1 < length grids then Some (hd (rows (grids ! (r + 1)))) else None)"

text \<open>
  For the sequential step: an array of \<open>Nx\<close> rows of \<open>Ny\<close> elements; the value of the
  source's \<^verbatim>\<open>mask\<close> at a position, read off the eight slice assignments; and the value
  of \<^verbatim>\<open>mask\<close> after them.
\<close>

definition shape_ok :: "nat \<Rightarrow> nat \<Rightarrow> 'a list list \<Rightarrow> bool" where
  "shape_ok Nx Ny a = (length a = Nx \<and> (\<forall>i<Nx. length (a ! i) = Ny))"

definition moore_mask :: "cell list list \<Rightarrow> nat \<Rightarrow> nat \<Rightarrow> nat \<Rightarrow> nat \<Rightarrow> bool" where
  "moore_mask a Nx Ny i j =
     ((i + 1 < Nx \<and> a ! (i + 1) ! j = BURN)
      \<or> (1 \<le> i \<and> a ! (i - 1) ! j = BURN)
      \<or> (j + 1 < Ny \<and> a ! i ! (j + 1) = BURN)
      \<or> (1 \<le> j \<and> a ! i ! (j - 1) = BURN)
      \<or> (i + 1 < Nx \<and> j + 1 < Ny \<and> a ! (i + 1) ! (j + 1) = BURN)
      \<or> (i + 1 < Nx \<and> 1 \<le> j \<and> a ! (i + 1) ! (j - 1) = BURN)
      \<or> (1 \<le> i \<and> j + 1 < Ny \<and> a ! (i - 1) ! (j + 1) = BURN)
      \<or> (1 \<le> i \<and> 1 \<le> j \<and> a ! (i - 1) ! (j - 1) = BURN))"

definition step_mask :: "cell list list \<Rightarrow> nat \<Rightarrow> nat \<Rightarrow> bool list list" where
  "step_mask a Nx Ny =
     (let gb = eq_mask a BURN;
          msk = zeros_like gb;
          msk = ior_slice msk Nx Ny ButLast Full (getslice gb Nx Ny ButFirst Full);
          msk = ior_slice msk Nx Ny ButFirst Full (getslice gb Nx Ny ButLast Full);
          msk = ior_slice msk Nx Ny Full ButLast (getslice gb Nx Ny Full ButFirst);
          msk = ior_slice msk Nx Ny Full ButFirst (getslice gb Nx Ny Full ButLast);
          msk = ior_slice msk Nx Ny ButLast ButLast (getslice gb Nx Ny ButFirst ButFirst);
          msk = ior_slice msk Nx Ny ButLast ButFirst (getslice gb Nx Ny ButFirst ButLast);
          msk = ior_slice msk Nx Ny ButFirst ButLast (getslice gb Nx Ny ButLast ButFirst);
          msk = ior_slice msk Nx Ny ButFirst ButFirst (getslice gb Nx Ny ButLast ButLast)
      in msk)"

text \<open>
  The ghost row that an optional address stands for, and the addresses that exist in a
  store.
\<close>

definition ghost_val :: "store \<Rightarrow> addr option \<Rightarrow> cell list option" where
  "ghost_val h ghost = map_option (\<lambda>a. concat (rows (h ! a))) ghost"

definition addr_ok :: "store \<Rightarrow> addr option \<Rightarrow> bool" where
  "addr_ok h ghost = (case ghost of None \<Rightarrow> True | Some a \<Rightarrow> a < length h)"

text \<open>The arrays that a padding row allocates: one for an absent ghost row, none for a view.\<close>

definition pad_alloc :: "nat \<Rightarrow> addr option \<Rightarrow> store" where
  "pad_alloc Ny ghost =
     (case ghost of None \<Rightarrow> [\<lparr>ncols = Ny, rows = [replicate Ny EMPTY]\<rparr>] | Some a \<Rightarrow> [])"

section \<open>Properties of the partition planner\<close>

lemma planner_Inr:
  "num_procs \<noteq> 0 \<Longrightarrow>
   planner Nx num_procs rank =
     Inr (rank * (Nx div num_procs),
          if rank = num_procs - 1 then Nx else (rank + 1) * (Nx div num_procs))"
  by (simp add: planner_def Let_def)

lemma div_pos_ge_one:
  fixes Nx W :: int
  assumes "0 < W" "W \<le> Nx"
  shows "1 \<le> Nx div W"
proof -
  have "0 < Nx div W" using assms by (simp add: pos_imp_zdiv_pos_iff)
  then show ?thesis by simp
qed

lemma mult_div_le_self:
  fixes Nx W r :: int
  assumes "0 < W" "0 \<le> Nx" "0 \<le> r" "r < W"
  shows "r * (Nx div W) \<le> (W - 1) * (Nx div W)" and "(W - 1) * (Nx div W) + Nx div W \<le> Nx"
proof -
  have d: "0 \<le> Nx div W" using assms by (simp add: pos_imp_zdiv_nonneg_iff)
  show "r * (Nx div W) \<le> (W - 1) * (Nx div W)"
    using assms d by (intro mult_right_mono) auto
  have "(W - 1) * (Nx div W) + Nx div W = W * (Nx div W)" by (simp add: algebra_simps)
  also have "\<dots> \<le> Nx"
    using assms by (metis mult.commute div_mult_mod_eq pos_mod_sign le_add_same_cancel1)
  finally show "(W - 1) * (Nx div W) + Nx div W \<le> Nx" .
qed

lemma range_of_eq:
  "W \<noteq> 0 \<Longrightarrow> range_of Nx W r =
     {r * (Nx div W) ..< (if r = W - 1 then Nx else (r + 1) * (Nx div W))}"
  by (simp add: range_of_def planner_Inr)

lemma hi_le_Nx:
  fixes Nx W r :: int
  assumes "0 < W" "W \<le> Nx" "0 \<le> r" "r < W"
  shows "(if r = W - 1 then Nx else (r + 1) * (Nx div W)) \<le> Nx"
proof (cases "r = W - 1")
  case True then show ?thesis by simp
next
  case False
  then have "0 \<le> r + 1" "r + 1 < W" using assms by auto
  from mult_div_le_self(1)[OF assms(1) _ this] assms
  have "(r + 1) * (Nx div W) \<le> (W - 1) * (Nx div W)" by simp
  moreover have "(W - 1) * (Nx div W) + Nx div W \<le> Nx"
    using mult_div_le_self(2)[of W Nx 0] assms by simp
  moreover have "0 \<le> Nx div W" using div_pos_ge_one[OF assms(1,2)] by simp
  ultimately show ?thesis using False by simp
qed

lemma lo_lt_hi:
  fixes Nx W r :: int
  assumes "0 < W" "W \<le> Nx" "0 \<le> r" "r < W"
  shows "r * (Nx div W) < (if r = W - 1 then Nx else (r + 1) * (Nx div W))"
proof (cases "r = W - 1")
  case True
  have "(W - 1) * (Nx div W) + Nx div W \<le> Nx"
    using mult_div_le_self(2)[of W Nx 0] assms by simp
  moreover have "1 \<le> Nx div W" using div_pos_ge_one[OF assms(1,2)] .
  ultimately show ?thesis using True by simp
next
  case False
  have "1 \<le> Nx div W" using div_pos_ge_one[OF assms(1,2)] .
  then show ?thesis using False by (simp add: algebra_simps)
qed

lemma hi_le_lo:
  fixes Nx W r s :: int
  assumes "0 < W" "W \<le> Nx" "0 \<le> r" "r < s" "s < W"
  shows "(if r = W - 1 then Nx else (r + 1) * (Nx div W)) \<le> s * (Nx div W)"
proof -
  have "0 \<le> Nx div W" using div_pos_ge_one[OF assms(1,2)] by simp
  then have "(r + 1) * (Nx div W) \<le> s * (Nx div W)"
    using assms by (intro mult_right_mono) auto
  then show ?thesis using assms by simp
qed

lemma range_union:
  fixes Nx W :: int
  assumes "0 < W" "W \<le> Nx"
  shows "(\<Union>r\<in>{0..<W}. range_of Nx W r) = {0..<Nx}"
proof (intro equalityI subsetI)
  fix x assume "x \<in> (\<Union>r\<in>{0..<W}. range_of Nx W r)"
  then obtain r where r: "0 \<le> r" "r < W" and x: "x \<in> range_of Nx W r" by auto
  have d: "0 \<le> Nx div W" using div_pos_ge_one[OF assms] by simp
  have "0 \<le> r * (Nx div W)" using r d by simp
  moreover note hi_le_Nx[OF assms r]
  ultimately show "x \<in> {0..<Nx}" using x assms by (simp add: range_of_eq)
next
  fix x assume "x \<in> {0..<Nx}"
  then have x: "0 \<le> x" "x < Nx" by auto
  define rp where "rp = Nx div W"
  have rp: "1 \<le> rp" unfolding rp_def using div_pos_ge_one[OF assms] .
  show "x \<in> (\<Union>r\<in>{0..<W}. range_of Nx W r)"
  proof (cases "(W - 1) * rp \<le> x")
    case True
    then have "x \<in> range_of Nx W (W - 1)" using x assms by (simp add: range_of_eq rp_def)
    then show ?thesis using assms by force
  next
    case False
    define r where "r = x div rp"
    have r0: "0 \<le> r" unfolding r_def using x rp by (simp add: pos_imp_zdiv_nonneg_iff)
    have lo: "r * rp \<le> x" unfolding r_def using rp
      by (metis div_mult_mod_eq pos_mod_sign le_add_same_cancel1 zero_less_one order_less_le_trans)
    have hi: "x < (r + 1) * rp" unfolding r_def using rp
      by (smt (verit) div_mult_mod_eq pos_mod_bound mult.commute distrib_left mult_cancel_left1)
    have "r * rp < (W - 1) * rp" using lo False by simp
    then have rW: "r < W - 1" using rp by (simp add: mult_less_cancel_right)
    then have "x \<in> range_of Nx W r" using lo hi assms by (simp add: range_of_eq rp_def)
    then show ?thesis using r0 rW by force
  qed
qed

lemma my_rows_eq:
  "W \<noteq> 0 \<Longrightarrow> my_rows Nx W r =
     Inr ((if r = W - 1 then Nx else (r + 1) * (Nx div W)) - r * (Nx div W))"
  by (simp add: my_rows_def planner_Inr)

lemma ranges_disjoint:
  fixes Nx W r s :: int
  assumes "0 < W" "W \<le> Nx" "0 \<le> r" "r < s" "s < W"
  shows "range_of Nx W r \<inter> range_of Nx W s = {}"
proof -
  have "r \<noteq> W - 1" using assms by simp
  then show ?thesis
    using hi_le_lo[OF assms] assms(1) by (auto simp: range_of_eq)
qed
section \<open>Properties of the update rule\<close>

lemma cell_update_eq:
  "cell_update padded Ny p f g i j (new, k) =
     (setitem new i j (fst (next_cell padded Ny p f g i j k)),
      snd (next_cell padded Ny p f g i j k))"
  by (simp add: cell_update_def next_cell_def Let_def)

lemma length_row_vals: "length (fst (row_vals padded Ny p f g i m k)) = m"
  by (induction m) (auto split: prod.splits)

lemma length_block_vals: "length (fst (block_vals padded Ny p f g n k)) = n"
  by (induction n) (auto split: prod.splits)

lemma append_drop_update:
  assumes "length vs = m" "m < length r"
  shows "(vs @ drop m r)[m := v] = (vs @ [v]) @ drop (Suc m) r"
proof -
  have "drop m r = r ! m # drop (Suc m) r" using assms by (simp add: Cons_nth_drop_Suc)
  then show ?thesis using assms by (simp add: list_update_append)
qed

lemma row_loop_eq:
  assumes "i < length new" "m \<le> length (new ! i)"
  shows "fold (\<lambda>j. cell_update padded Ny p f g i j) [0..<m] (new, k) =
           (new[i := fst (row_vals padded Ny p f g i m k) @ drop m (new ! i)],
            snd (row_vals padded Ny p f g i m k))"
  using assms
proof (induction m)
  case 0
  then show ?case by simp
next
  case (Suc m)
  obtain vs k' where rv: "row_vals padded Ny p f g i m k = (vs, k')" by (cases "row_vals padded Ny p f g i m k")
  obtain v k'' where nc: "next_cell padded Ny p f g i m k' = (v, k'')" by (cases "next_cell padded Ny p f g i m k'")
  have lv: "length vs = m" using length_row_vals[of padded Ny p f g i m k] rv by simp
  have m: "m < length (new ! i)" using Suc.prems by simp
  have "fold (\<lambda>j. cell_update padded Ny p f g i j) [0..<Suc m] (new, k) =
        cell_update padded Ny p f g i m (new[i := vs @ drop m (new ! i)], k')"
    using Suc rv by simp
  also have "\<dots> = (new[i := (vs @ [v]) @ drop (Suc m) (new ! i)], k'')"
    using Suc.prems(1) nc append_drop_update[OF lv m]
    by (simp add: cell_update_eq setitem_def)
  finally show ?case using rv nc by simp
qed

lemma block_loop_eq:
  assumes "n \<le> length new" "\<forall>r\<in>set new. length r = Ny"
  shows "fold (\<lambda>i. fold (\<lambda>j. cell_update padded Ny p f g i j) [0..<Ny]) [0..<n] (new, k) =
           (fst (block_vals padded Ny p f g n k) @ drop n new,
            snd (block_vals padded Ny p f g n k))"
  using assms
proof (induction n)
  case 0
  then show ?case by simp
next
  case (Suc n)
  obtain rs k' where bv: "block_vals padded Ny p f g n k = (rs, k')" by (cases "block_vals padded Ny p f g n k")
  obtain r k'' where rv: "row_vals padded Ny p f g n Ny k' = (r, k'')" by (cases "row_vals padded Ny p f g n Ny k'")
  have lr: "length rs = n" using length_block_vals[of padded Ny p f g n k] bv by simp
  have n: "n < length new" using Suc.prems by simp
  define X where "X = rs @ drop n new"
  have Xn: "X ! n = new ! n" using lr n by (simp add: X_def nth_append)
  have len: "length (new ! n) = Ny" using Suc.prems(2) n by simp
  have lX: "n < length X" using lr n by (simp add: X_def)
  have "fold (\<lambda>i. fold (\<lambda>j. cell_update padded Ny p f g i j) [0..<Ny]) [0..<Suc n] (new, k) =
        fold (\<lambda>j. cell_update padded Ny p f g n j) [0..<Ny] (X, k')"
    using Suc bv by (simp add: X_def)
  also have "\<dots> = (X[n := r], k'')"
    using row_loop_eq[of n X Ny padded Ny p f g k'] lX Xn len rv by simp
  also have "X[n := r] = (rs @ [r]) @ drop (Suc n) new"
    unfolding X_def using append_drop_update[OF lr n] .
  finally show ?case using bv rv by simp
qed

lemma row_vals_cell:
  "j < m \<Longrightarrow> \<exists>k'. fst (row_vals padded Ny p f g i m k) ! j = fst (next_cell padded Ny p f g i j k')"
proof (induction m)
  case 0
  then show ?case by simp
next
  case (Suc m)
  obtain vs k' where rv: "row_vals padded Ny p f g i m k = (vs, k')" by (cases "row_vals padded Ny p f g i m k")
  have lv: "length vs = m" using length_row_vals[of padded Ny p f g i m k] rv by simp
  show ?case
  proof (cases "j < m")
    case True
    then show ?thesis using Suc.IH rv lv by (auto simp: nth_append split: prod.splits)
  next
    case False
    then have "j = m" using Suc.prems by simp
    then show ?thesis using rv lv by (auto simp: nth_append split: prod.splits intro: exI[of _ k'])
  qed
qed

lemma block_vals_row:
  "i < n \<Longrightarrow> \<exists>k'. fst (block_vals padded Ny p f g n k) ! i = fst (row_vals padded Ny p f g i Ny k')"
proof (induction n)
  case 0
  then show ?case by simp
next
  case (Suc n)
  obtain rs k' where bv: "block_vals padded Ny p f g n k = (rs, k')" by (cases "block_vals padded Ny p f g n k")
  have lr: "length rs = n" using length_block_vals[of padded Ny p f g n k] bv by simp
  show ?case
  proof (cases "i < n")
    case True
    then show ?thesis using Suc.IH bv lr by (auto simp: nth_append split: prod.splits)
  next
    case False
    then have "i = n" using Suc.prems by simp
    then show ?thesis using bv lr by (auto simp: nth_append split: prod.splits intro: exI[of _ k'])
  qed
qed

lemma block_vals_cell:
  assumes "i < n" "j < Ny"
  shows "\<exists>k'. fst (block_vals padded Ny p f g n k) ! i ! j = fst (next_cell padded Ny p f g i j k')"
proof -
  obtain k1 where r: "fst (block_vals padded Ny p f g n k) ! i = fst (row_vals padded Ny p f g i Ny k1)"
    using block_vals_row[OF assms(1)] by blast
  show ?thesis
    using row_vals_cell[OF assms(2), of padded Ny p f g i k1] r by simp
qed

lemma block_vals_row_length:
  assumes "i < n"
  shows "length (fst (block_vals padded Ny p f g n k) ! i) = Ny"
proof -
  obtain k1 where r: "fst (block_vals padded Ny p f g n k) ! i = fst (row_vals padded Ny p f g i Ny k1)"
    using block_vals_row[OF assms(1)] by blast
  then show ?thesis by (simp add: length_row_vals)
qed

lemma pad_row_ok: "ghost_ok Ny gh \<Longrightarrow> pad_row Ny gh = Inr (ghost_or_empty Ny gh)"
  by (cases gh) (simp_all add: ghost_ok_def pad_row_def ghost_or_empty_def)

lemma pad_row_bad: "\<not> ghost_ok Ny gh \<Longrightarrow> pad_row Ny gh = Inl ValueError"
  by (cases gh) (simp_all add: ghost_ok_def pad_row_def)

lemma update_block_eq:
  assumes "wf_array block" "ghost_ok (ncols block) tg" "ghost_ok (ncols block) bg"
  shows "update_block block tg bg p f g k =
           Inr (block\<lparr>rows := fst (block_vals (padded_of block tg bg) (ncols block) p f g
                                    (length (rows block)) k)\<rparr>,
                snd (block_vals (padded_of block tg bg) (ncols block) p f g
                       (length (rows block)) k))"
proof -
  have "\<forall>r\<in>set (rows block). length r = ncols block"
    using assms(1) by (simp add: wf_array_def list_all_iff)
  from block_loop_eq[OF le_refl this]
  show ?thesis
    using assms(2,3) by (simp add: update_block_def pad_row_ok padded_of_def Let_def)
qed

lemma update_block_err:
  assumes "\<not> (ghost_ok (ncols block) tg \<and> ghost_ok (ncols block) bg)"
  shows "update_block block tg bg p f g k = Inl ValueError"
proof (cases "ghost_ok (ncols block) tg")
  case True
  then show ?thesis using assms by (simp add: update_block_def pad_row_ok pad_row_bad Let_def)
next
  case False
  then show ?thesis by (simp add: update_block_def pad_row_bad Let_def)
qed

lemma neighbour_burning_iff: "neighbour_burning padded Ny i j = moore_burning padded Ny i j"
  by (auto simp: neighbour_burning_def moore_burning_def moore_positions_def Let_def nat_add_distrib)

lemma next_cell_valid: "valid_cell (fst (next_cell padded Ny p f g i j k))"
  by (simp add: next_cell_def valid_cell_def Let_def)

lemma padded_of_nth: "i < length (rows block) \<Longrightarrow> padded_of block tg bg ! (i + 1) = rows block ! i"
  by (simp add: padded_of_def nth_append)

lemma pad_row_None: "pad_row Ny None = pad_row Ny (Some (replicate Ny EMPTY))"
  by (simp add: pad_row_def)

lemma next_cell_burn: "padded ! (i + 1) ! j = BURN \<Longrightarrow> fst (next_cell padded Ny p f g i j k) = EMPTY"
  by (simp add: next_cell_def)

lemma next_cell_tree:
  assumes "padded ! (i + 1) ! j = TREE" "0 \<le> g k"
  shows "fst (next_cell padded Ny p 0 g i j k) = (if moore_burning padded Ny i j then BURN else TREE)"
  using assms by (simp add: next_cell_def neighbour_burning_iff TREE_def BURN_def)

lemma update_block_cell:
  assumes "wf_array block" "ghost_ok (ncols block) tg" "ghost_ok (ncols block) bg"
  shows "\<exists>b' k'. update_block block tg bg p f g k = Inr (b', k')
           \<and> ncols b' = ncols block \<and> length (rows b') = length (rows block)
           \<and> (\<forall>i<length (rows block). length (rows b' ! i) = ncols block
                \<and> (\<forall>j<ncols block. \<exists>k''. rows b' ! i ! j =
                      fst (next_cell (padded_of block tg bg) (ncols block) p f g i j k'')))"
  using update_block_eq[OF assms, of p f g k]
  by (simp add: length_block_vals block_vals_cell block_vals_row_length)
section \<open>The update rule without random draws, and blocks of rows\<close>

lemma next_cell_det:
  assumes "0 \<le> g k"
  shows "fst (next_cell padded Ny 0 0 g i j k) = det_cell padded Ny i j"
  using assms by (simp add: next_cell_def det_cell_def Let_def)

lemma update_block_det:
  assumes "wf_array block" "ghost_ok (ncols block) tg" "ghost_ok (ncols block) bg"
    and "unit_draws g"
  shows "\<exists>k'. update_block block tg bg 0 0 g k =
           Inr (block\<lparr>rows := det_rows (padded_of block tg bg) (ncols block)
                              (length (rows block))\<rparr>, k')"
proof -
  define P where "P = padded_of block tg bg"
  define Ny where "Ny = ncols block"
  define n where "n = length (rows block)"
  define V where "V = fst (block_vals P Ny 0 0 g n k)"
  have nonneg: "\<And>k. 0 \<le> g k" using assms(4) by (simp add: unit_draws_def)
  have "V = det_rows P Ny n"
  proof (rule nth_equalityI)
    show "length V = length (det_rows P Ny n)"
      by (simp add: V_def det_rows_def length_block_vals)
  next
    fix i assume "i < length V"
    then have i: "i < n" by (simp add: V_def length_block_vals)
    have "V ! i = map (\<lambda>j. det_cell P Ny i j) [0..<Ny]"
    proof (rule nth_equalityI)
      show "length (V ! i) = length (map (\<lambda>j. det_cell P Ny i j) [0..<Ny])"
        using i by (simp add: V_def block_vals_row_length)
    next
      fix j assume "j < length (V ! i)"
      then have j: "j < Ny" using i by (simp add: V_def block_vals_row_length)
      obtain k' where "V ! i ! j = fst (next_cell P Ny 0 0 g i j k')"
        using block_vals_cell[OF i j, of P 0 0 g k] by (auto simp: V_def)
      then show "V ! i ! j = map (\<lambda>j. det_cell P Ny i j) [0..<Ny] ! j"
        using j nonneg by (simp add: next_cell_det)
    qed
    then show "V ! i = det_rows P Ny n ! i" using i by (simp add: det_rows_def)
  qed
  then show ?thesis
    using update_block_eq[OF assms(1-3), of 0 0 g k]
    by (simp add: V_def P_def Ny_def n_def)
qed

lemma det_cell_cong:
  assumes "P ! i = Q ! i'" "P ! Suc i = Q ! Suc i'" "P ! Suc (Suc i) = Q ! Suc (Suc i')"
  shows "det_cell P Ny i j = det_cell Q Ny i' j"
proof -
  have "neighbour_burning P Ny i j = neighbour_burning Q Ny i' j"
    using assms by (simp add: neighbour_burning_def Let_def nat_add_distrib)
  then show ?thesis using assms by (simp add: det_cell_def)
qed

lemma concat_split_nth:
  assumes "r < length xss"
  shows "concat xss = concat (take r xss) @ xss ! r @ concat (drop (Suc r) xss)"
proof -
  have "xss = take r xss @ xss ! r # drop (Suc r) xss"
    using assms by (simp add: id_take_nth_drop)
  then have "concat xss = concat (take r xss @ xss ! r # drop (Suc r) xss)" by simp
  then show ?thesis by simp
qed

lemma concat_nth_offset:
  assumes "r < length xss" "t < length (xss ! r)"
  shows "concat xss ! (offset xss r + t) = xss ! r ! t"
  using assms concat_split_nth[OF assms(1)]
  by (metis offset_def nth_append_length_plus nth_append)

lemma offset_Suc:
  assumes "r < length xss"
  shows "offset xss (Suc r) = offset xss r + length (xss ! r)"
  using assms by (simp add: offset_def take_Suc_conv_app_nth)

lemma offset_length: "offset xss (length xss) = length (concat xss)"
  by (simp add: offset_def)

lemma offset_0: "offset xss 0 = 0"
  by (simp add: offset_def)

lemma offset_bound:
  assumes "r < length xss"
  shows "offset xss r + length (xss ! r) \<le> length (concat xss)"
proof -
  have "length (concat xss) = offset xss r + length (xss ! r) + length (concat (drop (Suc r) xss))"
    using arg_cong[OF concat_split_nth[OF assms], of length] by (simp add: offset_def)
  then show ?thesis by simp
qed

lemma padded_slice:
  assumes r: "r < length xss" and ne: "\<forall>xs\<in>set xss. xs \<noteq> []"
    and t: "t \<le> length (xss ! r) + 1"
  shows "((if r > 0 then last (xss ! (r - 1)) else E) # xss ! r
            @ [if r + 1 < length xss then hd (xss ! (r + 1)) else E]) ! t
         = (E # concat xss @ [E]) ! (offset xss r + t)"
proof -
  define X where "X = concat xss"
  define n where "n = length (xss ! r)"
  have bound: "offset xss r + n \<le> length X"
    using offset_bound[OF r] by (simp add: X_def n_def)
  consider (top) "t = 0" | (mid) "1 \<le> t" "t \<le> n" | (bot) "t = n + 1"
    using t unfolding n_def by linarith
  then show ?thesis
  proof cases
    case top
    show ?thesis
    proof (cases "r > 0")
      case False
      then show ?thesis using top by (simp add: offset_0)
    next
      case True
      then obtain r' where r': "r = Suc r'" by (cases r) auto
      have r'l: "r' < length xss" using r r' by simp
      have nz: "xss ! r' \<noteq> []" using ne r'l by simp
      then obtain m where m: "length (xss ! r') = Suc m" by (cases "xss ! r'") auto
      have off: "offset xss r = Suc (offset xss r' + m)"
        using offset_Suc[OF r'l] r' m by simp
      have lt: "offset xss r' + m < length (concat xss)"
        using offset_bound[OF r'l] m by simp
      have "(E # concat xss @ [E]) ! (offset xss r + t) = (concat xss @ [E]) ! (offset xss r' + m)"
        using top off by simp
      also have "\<dots> = concat xss ! (offset xss r' + m)"
        using lt by (simp add: nth_append)
      also have "\<dots> = xss ! r' ! m"
        using concat_nth_offset[OF r'l, of m] m by simp
      also have "\<dots> = last (xss ! r')" using nz m by (simp add: last_conv_nth)
      finally show ?thesis using top r' by simp
    qed
  next
    case mid
    then obtain t' where t': "t = Suc t'" by (cases t) auto
    have t'n: "t' < n" using mid t' by simp
    have "(E # concat xss @ [E]) ! (offset xss r + t) = (concat xss @ [E]) ! (offset xss r + t')"
      using t' by simp
    also have "\<dots> = concat xss ! (offset xss r + t')"
      using bound t'n by (simp add: nth_append X_def)
    also have "\<dots> = xss ! r ! t'"
      using concat_nth_offset[OF r, of t'] t'n by (simp add: n_def)
    finally show ?thesis using t' t'n by (simp add: nth_append n_def)
  next
    case bot
    have lhs: "((if r > 0 then last (xss ! (r - 1)) else E) # xss ! r
            @ [if r + 1 < length xss then hd (xss ! (r + 1)) else E]) ! t
          = (if r + 1 < length xss then hd (xss ! (r + 1)) else E)"
      using bot by (simp add: nth_append n_def)
    have off: "offset xss (Suc r) = offset xss r + n"
      using offset_Suc[OF r] by (simp add: n_def)
    have rhs: "(E # concat xss @ [E]) ! (offset xss r + t) = (concat xss @ [E]) ! (offset xss (Suc r))"
      using bot off by simp
    show ?thesis
    proof (cases "r + 1 < length xss")
      case False
      then have "Suc r = length xss" using r by simp
      then have "offset xss (Suc r) = length (concat xss)" using offset_length[of xss] by simp
      then show ?thesis using lhs rhs False by (simp add: nth_append)
    next
      case True
      then have sr: "Suc r < length xss" by simp
      have nz: "xss ! Suc r \<noteq> []" using ne sr by simp
      then have pos: "0 < length (xss ! Suc r)" by simp
      have "offset xss (Suc r) < length (concat xss)"
        using offset_bound[OF sr] pos by linarith
      then have "(concat xss @ [E]) ! (offset xss (Suc r)) = concat xss ! (offset xss (Suc r) + 0)"
        by (simp add: nth_append)
      also have "\<dots> = xss ! Suc r ! 0" using concat_nth_offset[OF sr pos] .
      also have "\<dots> = hd (xss ! Suc r)" using nz by (simp add: hd_conv_nth)
      finally show ?thesis using lhs rhs True by simp
    qed
  qed
qed

lemma concat_by_offset:
  assumes "length yss = length xss"
    and "\<forall>r<length xss. length (yss ! r) = length (xss ! r)"
    and "\<forall>r<length xss. \<forall>t<length (xss ! r). yss ! r ! t = F (offset xss r + t)"
  shows "concat yss = map F [0..<length (concat xss)]"
  using assms
proof (induction xss arbitrary: yss rule: rev_induct)
  case Nil
  then show ?case by simp
next
  case (snoc xs xss)
  then obtain ys yss' where y: "yss = yss' @ [ys]" "length yss' = length xss"
    by (metis length_Suc_conv_rev length_append_singleton)
  have len: "\<forall>r<length xss. length (yss' ! r) = length (xss ! r)"
    using snoc.prems(2) y by (auto simp: nth_append split: if_splits)
  have vals: "\<forall>r<length xss. \<forall>t<length (xss ! r). yss' ! r ! t = F (offset xss r + t)"
  proof (intro allI impI)
    fix r t assume r: "r < length xss" and t: "t < length (xss ! r)"
    then have "yss ! r ! t = F (offset (xss @ [xs]) r + t)"
      using snoc.prems(3) by (simp add: nth_append)
    then show "yss' ! r ! t = F (offset xss r + t)"
      using r y by (simp add: nth_append offset_def)
  qed
  have ih: "concat yss' = map F [0..<length (concat xss)]"
    using snoc.IH[OF y(2) len vals] .
  have lst: "length xss < length (xss @ [xs])" by simp
  have lys: "length ys = length xs"
    using snoc.prems(2)[rule_format, OF lst] y by (simp add: nth_append)
  have vys: "\<forall>t<length xs. ys ! t = F (length (concat xss) + t)"
  proof (intro allI impI)
    fix t assume "t < length xs"
    then have "t < length ((xss @ [xs]) ! length xss)" by simp
    from snoc.prems(3)[rule_format, OF lst this]
    show "ys ! t = F (length (concat xss) + t)"
      using y by (simp add: nth_append offset_def)
  qed
  have "ys = map F [length (concat xss)..<length (concat xss) + length xs]"
    using lys vys by (intro nth_equalityI) auto
  then have "concat yss = map F ([0..<length (concat xss)] @ [length (concat xss)..<length (concat xss) + length xs])"
    using ih y by simp
  also have "[0..<length (concat xss)] @ [length (concat xss)..<length (concat xss) + length xs]
             = [0..<length (concat (xss @ [xs]))]"
    by (simp add: upt_add_eq_append[symmetric])
  finally show ?case .
qed
section \<open>Workers and the ghost rows they receive\<close>

lemma worker_step_eq:
  assumes "r < length grids" "\<forall>b\<in>set grids. rows b \<noteq> []"
  shows "worker_step grids r p f g k =
           update_block (grids ! r) (ghost_above grids r) (ghost_below grids r) p f g k"
proof -
  have a: "rows (grids ! r) \<noteq> []" using assms by simp
  have tg: "(if r > 0 then recv_row (bottom_row (grids ! (r - 1))) else Inr None)
            = Inr (ghost_above grids r)"
  proof (cases "r > 0")
    case True
    then have "rows (grids ! (r - 1)) \<noteq> []" using assms by simp
    then show ?thesis using True by (simp add: bottom_row_def recv_row_def ghost_above_def)
  next
    case False
    then show ?thesis by (simp add: ghost_above_def)
  qed
  have bg: "(if r < length grids - 1 then recv_row (top_row (grids ! (r + 1))) else Inr None)
            = Inr (ghost_below grids r)"
  proof (cases "r + 1 < length grids")
    case True
    then have "rows (grids ! (r + 1)) \<noteq> []" using assms by simp
    moreover have "r < length grids - 1" using True by simp
    ultimately show ?thesis using True by (simp add: top_row_def recv_row_def ghost_below_def)
  next
    case False
    then have "\<not> r < length grids - 1" by simp
    then show ?thesis using False by (simp add: ghost_below_def)
  qed
  show ?thesis
    unfolding worker_step_def Let_def tg bg using a by (simp add: top_row_def bottom_row_def)
qed

lemma padded_of_block:
  assumes r: "r < length grids" and ne: "\<forall>b\<in>set grids. rows b \<noteq> []"
    and nc: "ncols (grids ! r) = Ny" and t: "t \<le> length (rows (grids ! r)) + 1"
  shows "padded_of (grids ! r) (ghost_above grids r) (ghost_below grids r) ! t
         = (replicate Ny EMPTY # concat (map rows grids) @ [replicate Ny EMPTY])
             ! (offset (map rows grids) r + t)"
proof -
  define xss where "xss = map rows grids"
  define E where "E = replicate Ny EMPTY"
  have r': "r < length xss" using r by (simp add: xss_def)
  have ne': "\<forall>xs\<in>set xss. xs \<noteq> []" using ne by (auto simp: xss_def)
  have t': "t \<le> length (xss ! r) + 1" using t r by (simp add: xss_def)
  have "padded_of (grids ! r) (ghost_above grids r) (ghost_below grids r)
        = (if r > 0 then last (xss ! (r - 1)) else E) # xss ! r
            @ [if r + 1 < length xss then hd (xss ! (r + 1)) else E]"
    using r nc by (simp add: padded_of_def ghost_above_def ghost_below_def ghost_or_empty_def
        xss_def E_def)
  then show ?thesis
    using padded_slice[OF r' ne' t', of E] by (simp add: xss_def E_def)
qed

lemma record_rows_update: "(b::ndarray)\<lparr>rows := X\<rparr> = \<lparr>ncols = ncols b, rows = X\<rparr>"
  by (cases b) simp
section \<open>Properties of the sequential step\<close>

lemma shape_okD:
  "shape_ok Nx Ny a \<Longrightarrow> length a = Nx"
  "shape_ok Nx Ny a \<Longrightarrow> i < Nx \<Longrightarrow> length (a ! i) = Ny"
  by (simp_all add: shape_ok_def)

lemma eq_mask_shape: "shape_ok Nx Ny a \<Longrightarrow> shape_ok Nx Ny (eq_mask a c)"
  by (simp add: shape_ok_def eq_mask_def)

lemma eq_mask_nth:
  "shape_ok Nx Ny a \<Longrightarrow> i < Nx \<Longrightarrow> j < Ny \<Longrightarrow> eq_mask a c ! i ! j = (a ! i ! j = c)"
  by (simp add: shape_ok_def eq_mask_def)

lemma zeros_like_shape: "shape_ok Nx Ny a \<Longrightarrow> shape_ok Nx Ny (zeros_like a)"
  by (simp add: shape_ok_def zeros_like_def)

lemma zeros_like_nth:
  "shape_ok Nx Ny a \<Longrightarrow> i < Nx \<Longrightarrow> j < Ny \<Longrightarrow> zeros_like a ! i ! j = False"
  by (simp add: shape_ok_def zeros_like_def)

lemma lt_mask_shape: "shape_ok Nx Ny a \<Longrightarrow> shape_ok Nx Ny (lt_mask a x)"
  by (simp add: shape_ok_def lt_mask_def)

lemma lt_mask_nth:
  "shape_ok Nx Ny a \<Longrightarrow> i < Nx \<Longrightarrow> j < Ny \<Longrightarrow> lt_mask a x ! i ! j = (a ! i ! j < x)"
  by (simp add: shape_ok_def lt_mask_def)

lemma random_array_shape: "shape_ok Nx Ny (random_array g k Nx Ny)"
  by (simp add: shape_ok_def random_array_def)

lemma random_array_nth:
  "i < Nx \<Longrightarrow> j < Ny \<Longrightarrow> random_array g k Nx Ny ! i ! j = g (k + i * Ny + j)"
  by (simp add: random_array_def)

lemma and_mask_shape:
  "shape_ok Nx Ny a \<Longrightarrow> shape_ok Nx Ny b \<Longrightarrow> shape_ok Nx Ny (and_mask a b)"
  by (simp add: shape_ok_def and_mask_def)

lemma and_mask_nth:
  "shape_ok Nx Ny a \<Longrightarrow> shape_ok Nx Ny b \<Longrightarrow> i < Nx \<Longrightarrow> j < Ny \<Longrightarrow>
     and_mask a b ! i ! j = (a ! i ! j \<and> b ! i ! j)"
  by (simp add: shape_ok_def and_mask_def)

lemma assign_where_shape:
  "shape_ok Nx Ny a \<Longrightarrow> shape_ok Nx Ny m \<Longrightarrow> shape_ok Nx Ny (assign_where a m v)"
  by (simp add: shape_ok_def assign_where_def)

lemma assign_where_nth:
  "shape_ok Nx Ny a \<Longrightarrow> shape_ok Nx Ny m \<Longrightarrow> i < Nx \<Longrightarrow> j < Ny \<Longrightarrow>
     assign_where a m v ! i ! j = (if m ! i ! j then v else a ! i ! j)"
  by (simp add: shape_ok_def assign_where_def)

lemma ior_slice_shape: "shape_ok Nx Ny (ior_slice m Nx Ny sr sc rhs)"
  by (simp add: shape_ok_def ior_slice_def)

lemma ior_getslice_nth:
  assumes "i < Nx" "j < Ny"
    and "slice_stop sr Nx - slice_start sr = slice_stop tr Nx - slice_start tr"
    and "slice_stop sc Ny - slice_start sc = slice_stop tc Ny - slice_start tc"
  shows "ior_slice m Nx Ny sr sc (getslice gb Nx Ny tr tc) ! i ! j =
           (m ! i ! j \<or> (slice_start sr \<le> i \<and> i < slice_stop sr Nx
                          \<and> slice_start sc \<le> j \<and> j < slice_stop sc Ny
                          \<and> gb ! (slice_start tr + (i - slice_start sr))
                               ! (slice_start tc + (j - slice_start sc))))"
proof (cases "slice_start sr \<le> i \<and> i < slice_stop sr Nx
                \<and> slice_start sc \<le> j \<and> j < slice_stop sc Ny")
  case False
  then show ?thesis using assms(1,2) by (auto simp: ior_slice_def)
next
  case True
  then have a: "i - slice_start sr < slice_stop tr Nx - slice_start tr"
    and b: "j - slice_start sc < slice_stop tc Ny - slice_start tc"
    using assms(3,4) by linarith+
  have "getslice gb Nx Ny tr tc ! (i - slice_start sr) ! (j - slice_start sc)
        = gb ! (slice_start tr + (i - slice_start sr)) ! (slice_start tc + (j - slice_start sc))"
    using a b by (simp add: getslice_def)
  then show ?thesis using True assms(1,2) by (simp add: ior_slice_def)
qed

lemma step_mask_shape: "shape_ok Nx Ny (step_mask a Nx Ny)"
  by (simp add: step_mask_def Let_def ior_slice_shape)

lemma step_mask_nth:
  assumes sh: "shape_ok Nx Ny a" and i: "i < Nx" and j: "j < Ny"
  shows "step_mask a Nx Ny ! i ! j = moore_mask a Nx Ny i j"
proof -
  define gb where "gb = eq_mask a BURN"
  define m0 where "m0 = zeros_like gb"
  define m1 where "m1 = ior_slice m0 Nx Ny ButLast Full (getslice gb Nx Ny ButFirst Full)"
  define m2 where "m2 = ior_slice m1 Nx Ny ButFirst Full (getslice gb Nx Ny ButLast Full)"
  define m3 where "m3 = ior_slice m2 Nx Ny Full ButLast (getslice gb Nx Ny Full ButFirst)"
  define m4 where "m4 = ior_slice m3 Nx Ny Full ButFirst (getslice gb Nx Ny Full ButLast)"
  define m5 where "m5 = ior_slice m4 Nx Ny ButLast ButLast (getslice gb Nx Ny ButFirst ButFirst)"
  define m6 where "m6 = ior_slice m5 Nx Ny ButLast ButFirst (getslice gb Nx Ny ButFirst ButLast)"
  define m7 where "m7 = ior_slice m6 Nx Ny ButFirst ButLast (getslice gb Nx Ny ButLast ButFirst)"
  define m8 where "m8 = ior_slice m7 Nx Ny ButFirst ButFirst (getslice gb Nx Ny ButLast ButLast)"
  have gbn: "gb ! i' ! j' = (a ! i' ! j' = BURN)" if "i' < Nx" "j' < Ny" for i' j'
    using eq_mask_nth[OF sh that] by (simp add: gb_def)
  have gsh: "shape_ok Nx Ny gb" using eq_mask_shape[OF sh] by (simp add: gb_def)
  have e0: "m0 ! i ! j = False"
    using zeros_like_nth[OF gsh i j] by (simp add: m0_def)
  have e1: "m1 ! i ! j = (m0 ! i ! j \<or> (i + 1 < Nx \<and> a ! (i + 1) ! j = BURN))"
    unfolding m1_def using i j gbn[of "i + 1" j]
    by (subst ior_getslice_nth) auto
  have e2: "m2 ! i ! j = (m1 ! i ! j \<or> (1 \<le> i \<and> a ! (i - 1) ! j = BURN))"
    unfolding m2_def using i j gbn[of "i - 1" j]
    by (subst ior_getslice_nth) auto
  have e3: "m3 ! i ! j = (m2 ! i ! j \<or> (j + 1 < Ny \<and> a ! i ! (j + 1) = BURN))"
    unfolding m3_def using i j gbn[of i "j + 1"]
    by (subst ior_getslice_nth) auto
  have e4: "m4 ! i ! j = (m3 ! i ! j \<or> (1 \<le> j \<and> a ! i ! (j - 1) = BURN))"
    unfolding m4_def using i j gbn[of i "j - 1"]
    by (subst ior_getslice_nth) auto
  have e5: "m5 ! i ! j = (m4 ! i ! j \<or> (i + 1 < Nx \<and> j + 1 < Ny \<and> a ! (i + 1) ! (j + 1) = BURN))"
    unfolding m5_def using i j gbn[of "i + 1" "j + 1"]
    by (subst ior_getslice_nth) auto
  have e6: "m6 ! i ! j = (m5 ! i ! j \<or> (i + 1 < Nx \<and> 1 \<le> j \<and> a ! (i + 1) ! (j - 1) = BURN))"
    unfolding m6_def using i j gbn[of "i + 1" "j - 1"]
    by (subst ior_getslice_nth) auto
  have e7: "m7 ! i ! j = (m6 ! i ! j \<or> (1 \<le> i \<and> j + 1 < Ny \<and> a ! (i - 1) ! (j + 1) = BURN))"
    unfolding m7_def using i j gbn[of "i - 1" "j + 1"]
    by (subst ior_getslice_nth) auto
  have e8: "m8 ! i ! j = (m7 ! i ! j \<or> (1 \<le> i \<and> 1 \<le> j \<and> a ! (i - 1) ! (j - 1) = BURN))"
    unfolding m8_def using i j gbn[of "i - 1" "j - 1"]
    by (subst ior_getslice_nth) auto
  have "step_mask a Nx Ny = m8"
    unfolding step_mask_def Let_def m8_def m7_def m6_def m5_def m4_def m3_def m2_def m1_def
      m0_def gb_def by (rule refl)
  moreover have "m8 ! i ! j = moore_mask a Nx Ny i j"
    unfolding moore_mask_def e8 e7 e6 e5 e4 e3 e2 e1 e0 by simp
  ultimately show ?thesis by simp
qed
section \<open>The sequential step without random draws\<close>

lemma neighbour_burning_nat:
  assumes j: "j < Ny"
  shows "neighbour_burning P Ny i j =
     ((1 \<le> j \<and> P ! i ! (j - 1) = BURN) \<or> P ! i ! j = BURN
      \<or> (j + 1 < Ny \<and> P ! i ! (j + 1) = BURN)
      \<or> (1 \<le> j \<and> P ! (i + 1) ! (j - 1) = BURN)
      \<or> (j + 1 < Ny \<and> P ! (i + 1) ! (j + 1) = BURN)
      \<or> (1 \<le> j \<and> P ! (i + 2) ! (j - 1) = BURN) \<or> P ! (i + 2) ! j = BURN
      \<or> (j + 1 < Ny \<and> P ! (i + 2) ! (j + 1) = BURN))"
proof -
  define nb where "nb di dj =
     (\<not> (di = 0 \<and> dj = 0) \<and>
        (let ni = int i + 1 + di; nj = int j + dj
         in \<not> (nj < 0 \<or> nj \<ge> int Ny) \<and> P ! nat ni ! nat nj = BURN))" for di dj :: int
  have all: "neighbour_burning P Ny i j =
      (nb (- 1) (- 1) \<or> nb (- 1) 0 \<or> nb (- 1) 1 \<or> nb 0 (- 1) \<or> nb 0 0 \<or> nb 0 1
       \<or> nb 1 (- 1) \<or> nb 1 0 \<or> nb 1 1)"
    unfolding neighbour_burning_def nb_def[symmetric] by (simp only: list_ex_Cons_iff list_ex_Nil_iff) simp
  have i0: "nat (int i + 1 + - 1) = i" and i1: "nat (int i + 1 + 0) = i + 1"
    and i2: "nat (int i + 1 + 1) = i + 2" by simp_all
  have j0: "nat (int j + - 1) = j - 1" and j1: "nat (int j + 0) = j"
    and j2: "nat (int j + 1) = j + 1" by simp_all
  have c0: "(\<not> (int j + - 1 < 0 \<or> int j + - 1 \<ge> int Ny)) = (1 \<le> j)" using j by auto
  have c1: "(\<not> (int j + 0 < 0 \<or> int j + 0 \<ge> int Ny)) = True" using j by auto
  have c2: "(\<not> (int j + 1 < 0 \<or> int j + 1 \<ge> int Ny)) = (j + 1 < Ny)" by auto
  have "nb (- 1) (- 1) = (1 \<le> j \<and> P ! i ! (j - 1) = BURN)"
    and "nb (- 1) 0 = (P ! i ! j = BURN)"
    and "nb (- 1) 1 = (j + 1 < Ny \<and> P ! i ! (j + 1) = BURN)"
    and "nb 0 (- 1) = (1 \<le> j \<and> P ! (i + 1) ! (j - 1) = BURN)"
    and "nb 0 0 = False"
    and "nb 0 1 = (j + 1 < Ny \<and> P ! (i + 1) ! (j + 1) = BURN)"
    and "nb 1 (- 1) = (1 \<le> j \<and> P ! (i + 2) ! (j - 1) = BURN)"
    and "nb 1 0 = (P ! (i + 2) ! j = BURN)"
    and "nb 1 1 = (j + 1 < Ny \<and> P ! (i + 2) ! (j + 1) = BURN)"
    unfolding nb_def Let_def i0 i1 i2 j0 j1 j2 c0 c1 c2 by simp_all
  then show ?thesis unfolding all by simp
qed

lemma moore_mask_iff:
  assumes sh: "shape_ok Nx Ny a" and i: "i < Nx" and j: "j < Ny"
  shows "moore_mask a Nx Ny i j =
           neighbour_burning (replicate Ny EMPTY # a @ [replicate Ny EMPTY]) Ny i j"
proof -
  define P where "P = replicate Ny EMPTY # a @ [replicate Ny EMPTY]"
  have la: "length a = Nx" using sh by (simp add: shape_ok_def)
  have r0: "(P ! i ! c = BURN) = (1 \<le> i \<and> a ! (i - 1) ! c = BURN)" if "c < Ny" for c
  proof (cases i)
    case 0
    then show ?thesis using that by (simp add: P_def EMPTY_def BURN_def)
  next
    case (Suc i')
    then show ?thesis using i la by (simp add: P_def nth_append)
  qed
  have r1: "P ! (i + 1) = a ! i" using i la by (simp add: P_def nth_append)
  have r2: "(P ! (i + 2) ! c = BURN) = (i + 1 < Nx \<and> a ! (i + 1) ! c = BURN)" if "c < Ny" for c
  proof (cases "i + 1 < Nx")
    case True
    then show ?thesis using la by (simp add: P_def nth_append)
  next
    case False
    then have "i + 1 = Nx" using i by simp
    then have "P ! (i + 2) = replicate Ny EMPTY" using la by (auto simp: P_def nth_append)
    then show ?thesis using that False by (simp add: EMPTY_def BURN_def)
  qed
  have jm: "j - 1 < Ny" using j by simp
  show ?thesis
  proof (cases "j + 1 < Ny")
    case True
    show ?thesis
      unfolding neighbour_burning_nat[OF j] P_def[symmetric] r1 moore_mask_def
        r0[OF j] r0[OF jm] r0[OF True] r2[OF j] r2[OF jm] r2[OF True]
      by blast
  next
    case False
    then show ?thesis
      unfolding neighbour_burning_nat[OF j] P_def[symmetric] r1 moore_mask_def
        r0[OF j] r0[OF jm] r2[OF j] r2[OF jm]
      by blast
  qed
qed

lemma step_unfold:
  "step grid p f g k =
     (let Nx = length (rows grid); Ny = ncols grid; a = rows grid;
          catch = and_mask (eq_mask a TREE) (step_mask a Nx Ny);
          ignite = and_mask (lt_mask (random_array g k Nx Ny) f) (eq_mask a TREE);
          grow = and_mask (lt_mask (random_array g (k + Nx * Ny) Nx Ny) p) (eq_mask a EMPTY)
      in (grid\<lparr>rows := assign_where (assign_where (assign_where
                   (assign_where a (eq_mask a BURN) EMPTY) catch BURN) ignite BURN) grow TREE\<rparr>,
          k + 2 * Nx * Ny))"
  unfolding step_def step_mask_def Let_def by (rule refl)

lemma wf_array_shape: "wf_array grid \<Longrightarrow> shape_ok (length (rows grid)) (ncols grid) (rows grid)"
  by (simp add: wf_array_def shape_ok_def list_all_length)

lemma step_shape:
  assumes "wf_array grid"
  shows "shape_ok (length (rows grid)) (ncols grid) (rows (fst (step grid p f g k)))"
    and "ncols (fst (step grid p f g k)) = ncols grid"
proof -
  define Nx where "Nx = length (rows grid)"
  define Ny where "Ny = ncols grid"
  have sh: "shape_ok Nx Ny (rows grid)" using wf_array_shape[OF assms] by (simp add: Nx_def Ny_def)
  note shapes = sh eq_mask_shape and_mask_shape lt_mask_shape random_array_shape
    step_mask_shape assign_where_shape
  show "shape_ok (length (rows grid)) (ncols grid) (rows (fst (step grid p f g k)))"
    unfolding step_unfold Let_def Nx_def[symmetric] Ny_def[symmetric]
    by (simp add: shapes)
  show "ncols (fst (step grid p f g k)) = ncols grid"
    unfolding step_unfold Let_def by simp
qed

lemma step_cell:
  assumes wf: "wf_array grid" and i: "i < length (rows grid)" and j: "j < ncols grid"
  shows "rows (fst (step grid p f g k)) ! i ! j =
     (if g (k + length (rows grid) * ncols grid + i * ncols grid + j) < p
          \<and> rows grid ! i ! j = EMPTY then TREE
      else if g (k + i * ncols grid + j) < f \<and> rows grid ! i ! j = TREE then BURN
      else if rows grid ! i ! j = TREE
              \<and> moore_mask (rows grid) (length (rows grid)) (ncols grid) i j then BURN
      else if rows grid ! i ! j = BURN then EMPTY
      else rows grid ! i ! j)"
proof -
  define Nx where "Nx = length (rows grid)"
  define Ny where "Ny = ncols grid"
  define a where "a = rows grid"
  have sh: "shape_ok Nx Ny a"
    using wf_array_shape[OF wf] by (simp add: Nx_def Ny_def a_def)
  have i': "i < Nx" and j': "j < Ny" using i j by (simp_all add: Nx_def Ny_def)
  define catch where "catch = and_mask (eq_mask a TREE) (step_mask a Nx Ny)"
  define ignite where "ignite = and_mask (lt_mask (random_array g k Nx Ny) f) (eq_mask a TREE)"
  define grow where
    "grow = and_mask (lt_mask (random_array g (k + Nx * Ny) Nx Ny) p) (eq_mask a EMPTY)"
  define n1 where "n1 = assign_where a (eq_mask a BURN) EMPTY"
  define n2 where "n2 = assign_where n1 catch BURN"
  define n3 where "n3 = assign_where n2 ignite BURN"
  define n4 where "n4 = assign_where n3 grow TREE"
  have s_catch: "shape_ok Nx Ny catch"
    unfolding catch_def by (intro and_mask_shape eq_mask_shape step_mask_shape sh)
  have s_ignite: "shape_ok Nx Ny ignite"
    unfolding ignite_def
    by (intro and_mask_shape eq_mask_shape lt_mask_shape random_array_shape sh)
  have s_grow: "shape_ok Nx Ny grow"
    unfolding grow_def
    by (intro and_mask_shape eq_mask_shape lt_mask_shape random_array_shape sh)
  have s1: "shape_ok Nx Ny n1"
    unfolding n1_def by (intro assign_where_shape eq_mask_shape sh)
  have s2: "shape_ok Nx Ny n2" unfolding n2_def by (intro assign_where_shape s1 s_catch)
  have s3: "shape_ok Nx Ny n3" unfolding n3_def by (intro assign_where_shape s2 s_ignite)
  have v_catch: "catch ! i ! j = (a ! i ! j = TREE \<and> moore_mask a Nx Ny i j)"
    unfolding catch_def
    using and_mask_nth[OF eq_mask_shape[OF sh] step_mask_shape i' j', of TREE a]
      eq_mask_nth[OF sh i' j'] step_mask_nth[OF sh i' j'] by simp
  have v_ignite: "ignite ! i ! j = (g (k + i * Ny + j) < f \<and> a ! i ! j = TREE)"
    unfolding ignite_def
    using and_mask_nth[OF lt_mask_shape[OF random_array_shape] eq_mask_shape[OF sh] i' j',
        of g k f TREE]
      lt_mask_nth[OF random_array_shape i' j', of g k f] random_array_nth[OF i' j', of g k]
      eq_mask_nth[OF sh i' j'] by simp
  have v_grow: "grow ! i ! j = (g (k + Nx * Ny + i * Ny + j) < p \<and> a ! i ! j = EMPTY)"
    unfolding grow_def
    using and_mask_nth[OF lt_mask_shape[OF random_array_shape] eq_mask_shape[OF sh] i' j',
        of g "k + Nx * Ny" p EMPTY]
      lt_mask_nth[OF random_array_shape i' j', of g "k + Nx * Ny" p]
      random_array_nth[OF i' j', of g "k + Nx * Ny"]
      eq_mask_nth[OF sh i' j'] by simp
  have v1: "n1 ! i ! j = (if a ! i ! j = BURN then EMPTY else a ! i ! j)"
    unfolding n1_def
    using assign_where_nth[OF sh eq_mask_shape[OF sh] i' j', of BURN EMPTY]
      eq_mask_nth[OF sh i' j'] by simp
  have v2: "n2 ! i ! j = (if catch ! i ! j then BURN else n1 ! i ! j)"
    unfolding n2_def using assign_where_nth[OF s1 s_catch i' j'] .
  have v3: "n3 ! i ! j = (if ignite ! i ! j then BURN else n2 ! i ! j)"
    unfolding n3_def using assign_where_nth[OF s2 s_ignite i' j'] .
  have v4: "n4 ! i ! j = (if grow ! i ! j then TREE else n3 ! i ! j)"
    unfolding n4_def using assign_where_nth[OF s3 s_grow i' j'] .
  have "rows (fst (step grid p f g k)) = n4"
    unfolding step_unfold Let_def n4_def n3_def n2_def n1_def catch_def ignite_def grow_def
      a_def Nx_def Ny_def by simp
  then show ?thesis
    unfolding v4 v3 v2 v1 v_catch v_ignite v_grow
    by (simp add: a_def Nx_def Ny_def v4 v3 v2 v1 v_catch v_ignite v_grow)
qed

lemma step_record: "fst (step grid p f g k) = grid\<lparr>rows := rows (fst (step grid p f g k))\<rparr>"
  unfolding step_unfold Let_def by simp

lemma step_det:
  assumes wf: "wf_array grid" and valid: "valid_cells (rows grid)" and draws: "unit_draws g"
  shows "rows (fst (step grid 0 0 g k)) =
           det_rows (padded_of grid None None) (ncols grid) (length (rows grid))"
proof -
  define Nx where "Nx = length (rows grid)"
  define Ny where "Ny = ncols grid"
  define a where "a = rows grid"
  define R where "R = rows (fst (step grid 0 0 g k))"
  define P where "P = padded_of grid None None"
  have sh: "shape_ok Nx Ny a"
    using wf_array_shape[OF wf] by (simp add: Nx_def Ny_def a_def)
  have shR: "shape_ok Nx Ny R"
    using step_shape(1)[OF wf, of 0 0 g k] by (simp add: R_def Nx_def Ny_def)
  have P_eq: "P = replicate Ny EMPTY # a @ [replicate Ny EMPTY]"
    by (simp add: P_def padded_of_def ghost_or_empty_def Ny_def a_def)
  have nonneg: "\<And>n. \<not> g n < 0" using draws by (simp add: unit_draws_def not_less)
  have cell: "R ! i ! j = det_cell P Ny i j" if i: "i < Nx" and j: "j < Ny" for i j
  proof -
    have v: "valid_cell (a ! i ! j)"
      using valid i j sh by (simp add: valid_cells_def list_all_length a_def shape_ok_def)
    have nb: "moore_mask a Nx Ny i j = neighbour_burning P Ny i j"
      using moore_mask_iff[OF sh i j] by (simp add: P_eq)
    have s: "P ! (i + 1) ! j = a ! i ! j"
      using i sh by (simp add: P_eq nth_append shape_ok_def)
    have "R ! i ! j =
      (if a ! i ! j = TREE \<and> moore_mask a Nx Ny i j then BURN
       else if a ! i ! j = BURN then EMPTY else a ! i ! j)"
      using step_cell[OF wf, of i j 0 0 g k] i j nonneg
      by (simp add: R_def Nx_def Ny_def a_def)
    then show ?thesis
      using v unfolding det_cell_def Let_def s nb
      by (auto simp: valid_cell_def EMPTY_def TREE_def BURN_def)
  qed
  have "R = det_rows P Ny Nx"
  proof (rule nth_equalityI)
    show "length R = length (det_rows P Ny Nx)"
      using shR by (simp add: shape_ok_def det_rows_def)
  next
    fix i assume "i < length R"
    then have i: "i < Nx" using shR by (simp add: shape_ok_def)
    have "R ! i = map (\<lambda>j. det_cell P Ny i j) [0..<Ny]"
    proof (rule nth_equalityI)
      show "length (R ! i) = length (map (\<lambda>j. det_cell P Ny i j) [0..<Ny])"
        using shR i by (simp add: shape_ok_def)
    next
      fix j assume "j < length (R ! i)"
      then have j: "j < Ny" using shR i by (simp add: shape_ok_def)
      show "R ! i ! j = map (\<lambda>j. det_cell P Ny i j) [0..<Ny] ! j"
        using cell[OF i j] j by simp
    qed
    then show "R ! i = det_rows P Ny Nx ! i" using i by (simp add: det_rows_def)
  qed
  then show ?thesis by (simp add: R_def P_def Ny_def Nx_def)
qed
section \<open>The update rule on a store refines the update rule on values\<close>

lemma cell_update_store_eq:
  "cell_update_store padded new Ny p f g i j (h, k) =
     (h[new := (h ! new)\<lparr>rows := fst (cell_update (rows (h ! padded)) Ny p f g i j
                                        (rows (h ! new), k))\<rparr>],
      snd (cell_update (rows (h ! padded)) Ny p f g i j (rows (h ! new), k)))"
  by (simp add: cell_update_store_def cell_update_def store_setitem_def Let_def)

lemma row_loop_store:
  assumes "padded \<noteq> new" "new < length h"
  shows "fold (\<lambda>j. cell_update_store padded new Ny p f g i j) js (h, k) =
     (h[new := (h ! new)\<lparr>rows := fst (fold (\<lambda>j. cell_update (rows (h ! padded)) Ny p f g i j) js
                                        (rows (h ! new), k))\<rparr>],
      snd (fold (\<lambda>j. cell_update (rows (h ! padded)) Ny p f g i j) js (rows (h ! new), k)))"
  using assms
proof (induction js arbitrary: h k)
  case Nil
  then show ?case by simp
next
  case (Cons j js)
  define r where "r = cell_update (rows (h ! padded)) Ny p f g i j (rows (h ! new), k)"
  define h' where "h' = h[new := (h ! new)\<lparr>rows := fst r\<rparr>]"
  have a: "h' ! padded = h ! padded" using Cons.prems by (simp add: h'_def)
  have b: "h' ! new = (h ! new)\<lparr>rows := fst r\<rparr>" using Cons.prems by (simp add: h'_def)
  have c: "new < length h'" using Cons.prems by (simp add: h'_def)
  have "fold (\<lambda>j. cell_update_store padded new Ny p f g i j) (j # js) (h, k)
        = fold (\<lambda>j. cell_update_store padded new Ny p f g i j) js (h', snd r)"
    by (simp add: cell_update_store_eq r_def h'_def)
  also have "\<dots> = (h'[new := (h' ! new)\<lparr>rows := fst (fold (\<lambda>j. cell_update (rows (h' ! padded)) Ny p f g i j) js
                                        (rows (h' ! new), snd r))\<rparr>],
      snd (fold (\<lambda>j. cell_update (rows (h' ! padded)) Ny p f g i j) js (rows (h' ! new), snd r)))"
    using Cons.IH[OF Cons.prems(1) c] .
  finally show ?case
    unfolding a b by (simp add: h'_def r_def)
qed

lemma block_loop_store:
  assumes "padded \<noteq> new" "new < length h"
  shows "fold (\<lambda>i. fold (\<lambda>j. cell_update_store padded new Ny p f g i j) js) is (h, k) =
     (h[new := (h ! new)\<lparr>rows := fst (fold (\<lambda>i. fold (\<lambda>j. cell_update (rows (h ! padded)) Ny p f g i j) js) is
                                        (rows (h ! new), k))\<rparr>],
      snd (fold (\<lambda>i. fold (\<lambda>j. cell_update (rows (h ! padded)) Ny p f g i j) js) is
             (rows (h ! new), k)))"
  using assms
proof (induction "is" arbitrary: h k)
  case Nil
  then show ?case by simp
next
  case (Cons i "is")
  define r where "r = fold (\<lambda>j. cell_update (rows (h ! padded)) Ny p f g i j) js (rows (h ! new), k)"
  define h' where "h' = h[new := (h ! new)\<lparr>rows := fst r\<rparr>]"
  have a: "h' ! padded = h ! padded" using Cons.prems by (simp add: h'_def)
  have b: "h' ! new = (h ! new)\<lparr>rows := fst r\<rparr>" using Cons.prems by (simp add: h'_def)
  have c: "new < length h'" using Cons.prems by (simp add: h'_def)
  have "fold (\<lambda>i. fold (\<lambda>j. cell_update_store padded new Ny p f g i j) js) (i # is) (h, k)
        = fold (\<lambda>i. fold (\<lambda>j. cell_update_store padded new Ny p f g i j) js) is (h', snd r)"
    using row_loop_store[OF Cons.prems, of Ny p f g i js k] by (simp add: r_def h'_def)
  also have "\<dots> = (h'[new := (h' ! new)\<lparr>rows := fst (fold (\<lambda>i. fold (\<lambda>j. cell_update (rows (h' ! padded)) Ny p f g i j) js) is
                                        (rows (h' ! new), snd r))\<rparr>],
      snd (fold (\<lambda>i. fold (\<lambda>j. cell_update (rows (h' ! padded)) Ny p f g i j) js) is
             (rows (h' ! new), snd r)))"
    using Cons.IH[OF Cons.prems(1) c] .
  finally show ?case
    unfolding a b by (simp add: h'_def r_def)
qed

lemma pad_row_store_eq:
  assumes "ghost_ok Ny (ghost_val h gh)"
  shows "pad_row_store h Ny gh = Inr (ghost_or_empty Ny (ghost_val h gh), h @ pad_alloc Ny gh)"
proof (cases gh)
  case None
  then show ?thesis
    by (simp add: pad_row_store_def alloc_def ghost_val_def ghost_or_empty_def pad_alloc_def)
next
  case (Some a)
  then show ?thesis using assms
    by (simp add: pad_row_store_def ghost_val_def ghost_or_empty_def pad_alloc_def ghost_ok_def)
qed

lemma ghost_val_append:
  "addr_ok h gh \<Longrightarrow> ghost_val (h @ e) gh = ghost_val h gh"
  by (cases gh) (simp_all add: ghost_val_def addr_ok_def nth_append)

lemma update_block_fold:
  assumes "ghost_ok (ncols block) tg" "ghost_ok (ncols block) bg"
  shows "update_block block tg bg p f g k =
     Inr (block\<lparr>rows := fst (fold (\<lambda>i. fold (\<lambda>j. cell_update (padded_of block tg bg) (ncols block)
                                                       p f g i j) [0..<ncols block])
                                 [0..<length (rows block)] (rows block, k))\<rparr>,
          snd (fold (\<lambda>i. fold (\<lambda>j. cell_update (padded_of block tg bg) (ncols block)
                                        p f g i j) [0..<ncols block])
                 [0..<length (rows block)] (rows block, k)))"
  using assms by (simp add: update_block_def pad_row_ok padded_of_def Let_def)

lemma update_block_store_eq:
  assumes blk: "block < length h" and atg: "addr_ok h tg" and abg: "addr_ok h bg"
    and gtg: "ghost_ok (ncols (h ! block)) (ghost_val h tg)"
    and gbg: "ghost_ok (ncols (h ! block)) (ghost_val h bg)"
  shows "\<exists>b' k'. update_block (h ! block) (ghost_val h tg) (ghost_val h bg) p f g k = Inr (b', k')
           \<and> update_block_store h block tg bg p f g k =
               Inr (length h + length (pad_alloc (ncols (h ! block)) tg)
                      + length (pad_alloc (ncols (h ! block)) bg) + 1,
                    h @ pad_alloc (ncols (h ! block)) tg @ pad_alloc (ncols (h ! block)) bg
                      @ [\<lparr>ncols = ncols (h ! block),
                          rows = padded_of (h ! block) (ghost_val h tg) (ghost_val h bg)\<rparr>, b'],
                    k')"
proof -
  define B where "B = h ! block"
  define Ny where "Ny = ncols B"
  define tgv where "tgv = ghost_val h tg"
  define bgv where "bgv = ghost_val h bg"
  define h1 where "h1 = h @ pad_alloc Ny tg"
  define h2 where "h2 = h1 @ pad_alloc Ny bg"
  define P where "P = padded_of B tgv bgv"
  define h3 where "h3 = h2 @ [\<lparr>ncols = Ny, rows = P\<rparr>]"
  define h4 where "h4 = h3 @ [B]"
  define padded where "padded = length h2"
  define new where "new = length h3"
  define r where "r = fold (\<lambda>i. fold (\<lambda>j. cell_update P Ny p f g i j) [0..<Ny])
                        [0..<length (rows B)] (rows B, k)"
  have p1: "pad_row_store h Ny tg = Inr (ghost_or_empty Ny tgv, h1)"
    using pad_row_store_eq[of Ny h tg] gtg by (simp add: Ny_def B_def tgv_def h1_def)
  have "ghost_val h1 bg = bgv"
    using ghost_val_append[OF abg] by (simp add: h1_def bgv_def)
  then have p2: "pad_row_store h1 Ny bg = Inr (ghost_or_empty Ny bgv, h2)"
    using pad_row_store_eq[of Ny h1 bg] gbg by (simp add: Ny_def B_def bgv_def h2_def)
  have b1: "h1 ! block = B" and b2: "h2 ! block = B" and b3: "h3 ! block = B"
    using blk by (simp_all add: h1_def h2_def h3_def B_def nth_append)
  have P_eq: "[ghost_or_empty Ny tgv] @ rows B @ [ghost_or_empty Ny bgv] = P"
    by (simp add: P_def padded_of_def Ny_def)
  have ne: "padded \<noteq> new" by (simp add: padded_def new_def h3_def)
  have lt: "new < length h4" by (simp add: new_def h4_def)
  have hp: "h4 ! padded = \<lparr>ncols = Ny, rows = P\<rparr>"
    by (simp add: h4_def h3_def padded_def nth_append)
  have hn: "h4 ! new = B" by (simp add: h4_def new_def)
  have loop: "fold (\<lambda>i. fold (\<lambda>j. cell_update_store padded new Ny p f g i j) [0..<Ny])
                [0..<length (rows B)] (h4, k) = (h4[new := B\<lparr>rows := fst r\<rparr>], snd r)"
    using block_loop_store[OF ne lt, of Ny p f g "[0..<Ny]" "[0..<length (rows B)]" k]
    by (simp add: hp hn r_def)
  have upd: "h4[new := B\<lparr>rows := fst r\<rparr>] = h3 @ [B\<lparr>rows := fst r\<rparr>]"
    by (simp add: h4_def new_def)
  have a3: "alloc h2 \<lparr>ncols = Ny,
                rows = [ghost_or_empty Ny tgv] @ rows (h2 ! block) @ [ghost_or_empty Ny bgv]\<rparr>
            = (padded, h3)"
    unfolding b2 P_eq by (simp add: alloc_def padded_def h3_def)
  have a4: "alloc h3 (h3 ! block) = (new, h4)"
    unfolding b3 by (simp add: alloc_def new_def h4_def)
  have store: "update_block_store h block tg bg p f g k =
      Inr (new, h3 @ [B\<lparr>rows := fst r\<rparr>], snd r)"
    by (simp only: update_block_store_def Let_def B_def[symmetric] Ny_def[symmetric]
        p1 p2 a3 a4 sum.case prod.case loop upd fst_conv snd_conv)
  have pure: "update_block B tgv bgv p f g k = Inr (B\<lparr>rows := fst r\<rparr>, snd r)"
    using update_block_fold[of B tgv bgv p f g k] gtg gbg
    by (simp add: B_def tgv_def bgv_def r_def P_def Ny_def)
  have "new = length h + length (pad_alloc Ny tg) + length (pad_alloc Ny bg) + 1"
    by (simp add: new_def h3_def h2_def h1_def)
  moreover have "h3 @ [B\<lparr>rows := fst r\<rparr>] =
      h @ pad_alloc Ny tg @ pad_alloc Ny bg @ [\<lparr>ncols = Ny, rows = P\<rparr>, B\<lparr>rows := fst r\<rparr>]"
    by (simp add: h3_def h2_def h1_def)
  ultimately show ?thesis
    using store pure by (simp add: Ny_def B_def tgv_def bgv_def P_def)
qed
section \<open>The connection loop\<close>

lemma connect_loop_reaches:
  assumes "env n = Connects" "\<forall>m<n. env m \<noteq> Connects" "m \<le> n"
  shows "connect_loop env m = Some (Inr \<lparr>up_sock = True, attempts = Suc n, sleeps = n\<rparr>)"
  using assms(3)
proof (induction "n - m" arbitrary: m)
  case 0
  then have "m = n" by simp
  then show ?case using assms(1) by (subst connect_loop.simps) simp
next
  case (Suc d)
  then have m: "m < n" by simp
  then have "env m \<noteq> Connects" using assms(2) by simp
  moreover have "connect_loop env (Suc m) = Some (Inr \<lparr>up_sock = True, attempts = Suc n, sleeps = n\<rparr>)"
    using Suc m by simp
  ultimately show ?case by (subst connect_loop.simps) (simp split: connect_outcome.splits)
qed

lemma connect_loop_returns:
  "connect_loop env m = Some r \<Longrightarrow>
     \<exists>n\<ge>m. env n = Connects \<and> (\<forall>i. m \<le> i \<and> i < n \<longrightarrow> env i \<noteq> Connects)
        \<and> r = Inr \<lparr>up_sock = True, attempts = Suc n, sleeps = n\<rparr>"
proof (induction rule: connect_loop.raw_induct[rotated 1, consumes 1])
  case (1 connect_loop' env m r)
  show ?case
  proof (cases "env m")
    case Connects
    then show ?thesis using 1(2) by auto
  next
    case Refused
    then have "connect_loop' env (Suc m) = Some r" using 1(2) by simp
    from 1(1)[OF this] obtain n where "n \<ge> Suc m" "env n = Connects"
      "\<forall>i. Suc m \<le> i \<and> i < n \<longrightarrow> env i \<noteq> Connects"
      "r = Inr \<lparr>up_sock = True, attempts = Suc n, sleeps = n\<rparr>" by blast
    then show ?thesis using Refused
      by (intro exI[of _ n]) (auto simp: less_Suc_eq_le dest: le_neq_implies_less)
  next
    case OtherFailure
    then have "connect_loop' env (Suc m) = Some r" using 1(2) by simp
    from 1(1)[OF this] obtain n where "n \<ge> Suc m" "env n = Connects"
      "\<forall>i. Suc m \<le> i \<and> i < n \<longrightarrow> env i \<noteq> Connects"
      "r = Inr \<lparr>up_sock = True, attempts = Suc n, sleeps = n\<rparr>" by blast
    then show ?thesis using OtherFailure
      by (intro exI[of _ n]) (auto simp: less_Suc_eq_le dest: le_neq_implies_less)
  qed
qed

lemma connect_loop_diverges:
  assumes "\<forall>n. env n \<noteq> Connects"
  shows "connect_loop env m = None"
proof (cases "connect_loop env m")
  case None
  then show ?thesis .
next
  case (Some r)
  from connect_loop_returns[OF this] assms show ?thesis by blast
qed
section \<open>The claims\<close>

subsection \<open>C1: Partition invariance\<close>

text \<open>
  C1. Let \<open>G\<close> be a rectangular grid and \<open>grids\<close> a split of its rows, in order, into row
  blocks of the same width, each with at least one row (a worker with no rows raises at
  \<^verbatim>\<open>grid[0, :]\<close>). With \<open>p = 0\<close>, \<open>f = 0\<close> and draws in \<open>[0, 1)\<close> (each worker has its
  own generator), \<open>update_block\<close> returns a block for every block \<open>r\<close> when it is given the
  last row of block \<open>r - 1\<close> as top ghost (none for the first block) and the first row of
  block \<open>r + 1\<close> as bottom ghost (none for the last block), which is what the step of the
  worker of rank \<open>r\<close> computes; and these blocks, stacked in order, are exactly the block
  that \<open>update_block\<close> returns on the whole of \<open>G\<close> with both ghosts absent. The cells need not be restricted to the three codes.
\<close>

theorem partition_invariance:
  assumes wf: "wf_array G"
    and blocks: "\<forall>b\<in>set grids. ncols b = ncols G \<and> rows b \<noteq> []"
    and split: "concat (map rows grids) = rows G"
    and draws: "unit_draws g" "\<forall>r<length grids. unit_draws (gs r)"
  shows "\<exists>outs b'. length outs = length grids
           \<and> (\<forall>r<length grids. \<exists>k'.
                 update_block (grids ! r) (ghost_above grids r) (ghost_below grids r) 0 0
                   (gs r) (ks r) = Inr (outs ! r, k')
                 \<and> worker_step grids r 0 0 (gs r) (ks r) = Inr (outs ! r, k'))
           \<and> (\<exists>k'. update_block G None None 0 0 g k = Inr (b', k'))
           \<and> b' = \<lparr>ncols = ncols G, rows = concat (map rows outs)\<rparr>"
proof -
  define Ny where "Ny = ncols G"
  define xss where "xss = map rows grids"
  define P where "P = padded_of G None None"
  define Pr where "Pr r = padded_of (grids ! r) (ghost_above grids r) (ghost_below grids r)" for r
  define out where "out r = (grids ! r)\<lparr>rows := det_rows (Pr r) Ny (length (rows (grids ! r)))\<rparr>" for r
  define outs where "outs = map out [0..<length grids]"
  define F where "F i = map (\<lambda>j. det_cell P Ny i j) [0..<Ny]" for i
  have ne: "\<forall>b\<in>set grids. rows b \<noteq> []" using blocks by simp
  have rowlen: "\<forall>row\<in>set (rows G). length row = Ny"
    using wf by (simp add: wf_array_def list_all_iff Ny_def)
  have sub: "set (rows (grids ! r)) \<subseteq> set (rows G)" if "r < length grids" for r
  proof -
    have "rows (grids ! r) \<in> set (map rows grids)" using that by simp
    then have "set (rows (grids ! r)) \<subseteq> set (concat (map rows grids))" by auto
    then show ?thesis using split by simp
  qed
  have P_eq: "P = replicate Ny EMPTY # concat (map rows grids) @ [replicate Ny EMPTY]"
    by (simp add: P_def padded_of_def ghost_or_empty_def split Ny_def)
  have worker: "\<exists>k'. update_block (grids ! r) (ghost_above grids r) (ghost_below grids r) 0 0
                      (gs r) (ks r) = Inr (outs ! r, k')
                  \<and> worker_step grids r 0 0 (gs r) (ks r) = Inr (outs ! r, k')"
    if r: "r < length grids" for r
  proof -
    have nc: "ncols (grids ! r) = Ny" using blocks r by (simp add: Ny_def)
    have wfr: "wf_array (grids ! r)"
      using sub[OF r] rowlen nc by (auto simp: wf_array_def list_all_iff)
    have ga: "ghost_ok (ncols (grids ! r)) (ghost_above grids r)"
    proof (cases "r > 0")
      case False
      then show ?thesis by (simp add: ghost_ok_def ghost_above_def)
    next
      case True
      then have r1: "r - 1 < length grids" using r by simp
      then have "last (rows (grids ! (r - 1))) \<in> set (rows G)"
        using sub[OF r1] ne by (meson last_in_set nth_mem subsetD)
      then show ?thesis using True nc rowlen by (simp add: ghost_ok_def ghost_above_def)
    qed
    have gb: "ghost_ok (ncols (grids ! r)) (ghost_below grids r)"
    proof (cases "r + 1 < length grids")
      case False
      then show ?thesis by (simp add: ghost_ok_def ghost_below_def)
    next
      case True
      then have "hd (rows (grids ! (r + 1))) \<in> set (rows G)"
        using sub[OF True] ne by (meson hd_in_set nth_mem subsetD)
      then show ?thesis using True nc rowlen by (simp add: ghost_ok_def ghost_below_def)
    qed
    have "unit_draws (gs r)" using draws(2) r by simp
    from update_block_det[OF wfr ga gb this, of "ks r"]
    show ?thesis
      using r nc by (simp add: worker_step_eq[OF r ne] outs_def out_def Pr_def)
  qed
  have whole: "\<exists>k'. update_block G None None 0 0 g k =
                 Inr (\<lparr>ncols = ncols G, rows = det_rows P Ny (length (rows G))\<rparr>, k')"
    using update_block_det[OF wf _ _ draws(1), of None None k]
    by (simp add: ghost_ok_def P_def Ny_def record_rows_update)
  have "concat (map rows outs) = map F [0..<length (concat xss)]"
  proof (rule concat_by_offset)
    show "length (map rows outs) = length xss" by (simp add: outs_def xss_def)
  next
    show "\<forall>r<length xss. length (map rows outs ! r) = length (xss ! r)"
      by (simp add: outs_def xss_def out_def det_rows_def)
  next
    show "\<forall>r<length xss. \<forall>t<length (xss ! r). map rows outs ! r ! t = F (offset xss r + t)"
    proof (intro allI impI)
      fix r t assume r: "r < length xss" and t: "t < length (xss ! r)"
      then have rg: "r < length grids" and tg: "t < length (rows (grids ! r))"
        by (simp_all add: xss_def)
      have nc: "ncols (grids ! r) = Ny" using blocks rg by (simp add: Ny_def)
      have s0: "Pr r ! t = P ! (offset xss r + t)"
        using padded_of_block[OF rg ne nc, of t] tg by (simp add: Pr_def P_eq xss_def)
      have s1: "Pr r ! Suc t = P ! Suc (offset xss r + t)"
        using padded_of_block[OF rg ne nc, of "Suc t"] tg by (simp add: Pr_def P_eq xss_def)
      have s2: "Pr r ! Suc (Suc t) = P ! Suc (Suc (offset xss r + t))"
        using padded_of_block[OF rg ne nc, of "Suc (Suc t)"] tg by (simp add: Pr_def P_eq xss_def)
      have "map rows outs ! r ! t = map (\<lambda>j. det_cell (Pr r) Ny t j) [0..<Ny]"
        using rg tg by (simp add: outs_def out_def det_rows_def)
      also have "\<dots> = F (offset xss r + t)"
        using det_cell_cong[OF s0 s1 s2] by (simp add: F_def)
      finally show "map rows outs ! r ! t = F (offset xss r + t)" .
    qed
  qed
  then have "concat (map rows outs) = det_rows P Ny (length (rows G))"
    using split by (simp add: xss_def det_rows_def F_def)
  then show ?thesis
    using worker whole by (intro exI[of _ outs]) (auto simp: outs_def)
qed

text \<open>
  The 4 by 4 grid of trees with cell \<open>(1, 2)\<close> burning, split into rows 0--1 and rows 2--3.
\<close>

theorem partition_invariance_witness:
  "wf_array \<lparr>ncols = 4, rows = [[1, 1, 1, 1], [1, 1, 2, 1], [1, 1, 1, 1], [1, 1, 1, 1]]\<rparr>
   \<and> concat (map rows [\<lparr>ncols = 4, rows = [[1, 1, 1, 1], [1, 1, 2, 1]]\<rparr>,
                         \<lparr>ncols = 4, rows = [[1, 1, 1, 1], [1, 1, 1, 1]]\<rparr>])
       = rows \<lparr>ncols = 4, rows = [[1, 1, 1, 1], [1, 1, 2, 1], [1, 1, 1, 1], [1, 1, 1, 1]]\<rparr>
   \<and> unit_draws (\<lambda>n. 1 / 2)
   \<and> ghost_below [\<lparr>ncols = 4, rows = [[1, 1, 1, 1], [1, 1, 2, 1]]\<rparr>,
                   \<lparr>ncols = 4, rows = [[1, 1, 1, 1], [1, 1, 1, 1]]\<rparr>] 0 = Some [1, 1, 1, 1]
   \<and> ghost_above [\<lparr>ncols = 4, rows = [[1, 1, 1, 1], [1, 1, 2, 1]]\<rparr>,
                   \<lparr>ncols = 4, rows = [[1, 1, 1, 1], [1, 1, 1, 1]]\<rparr>] 1 = Some [1, 1, 2, 1]
   \<and> (\<exists>outs b'. length outs = 2
         \<and> (\<exists>k'. worker_step [\<lparr>ncols = 4, rows = [[1, 1, 1, 1], [1, 1, 2, 1]]\<rparr>,
                                 \<lparr>ncols = 4, rows = [[1, 1, 1, 1], [1, 1, 1, 1]]\<rparr>] 0 0 0
                     (\<lambda>n. 1 / 2) 0 = Inr (outs ! 0, k'))
         \<and> (\<exists>k'. worker_step [\<lparr>ncols = 4, rows = [[1, 1, 1, 1], [1, 1, 2, 1]]\<rparr>,
                                 \<lparr>ncols = 4, rows = [[1, 1, 1, 1], [1, 1, 1, 1]]\<rparr>] 1 0 0
                     (\<lambda>n. 1 / 2) 0 = Inr (outs ! 1, k'))
         \<and> (\<exists>k'. update_block
                     \<lparr>ncols = 4, rows = [[1, 1, 1, 1], [1, 1, 2, 1], [1, 1, 1, 1], [1, 1, 1, 1]]\<rparr>
                     None None 0 0 (\<lambda>n. 1 / 2) 0 = Inr (b', k'))
         \<and> b' = \<lparr>ncols = 4, rows = concat (map rows outs)\<rparr>)"
proof -
  define G where "G = \<lparr>ncols = 4, rows = [[1, 1, 1, 1], [1, 1, 2, 1], [1, 1, 1, 1], [1, 1, 1, 1]]\<rparr>"
  define grids where "grids = [\<lparr>ncols = 4, rows = [[1, 1, 1, 1], [1, 1, 2, 1]]\<rparr>,
                               \<lparr>ncols = 4, rows = [[1, 1, 1, 1], [1, 1, 1, 1 :: cell]]\<rparr>]"
  have 1: "wf_array G" and 2: "\<forall>b\<in>set grids. ncols b = ncols G \<and> rows b \<noteq> []"
    and 3: "concat (map rows grids) = rows G" and 4: "unit_draws (\<lambda>n. 1 / 2)"
    and 5: "\<forall>r<length grids. unit_draws ((\<lambda>r n. 1 / 2) r)"
    and 6: "ghost_below grids 0 = Some [1, 1, 1, 1]"
    and 7: "ghost_above grids 1 = Some [1, 1, 2, 1]"
    by (simp_all add: G_def grids_def wf_array_def unit_draws_def ghost_below_def
        ghost_above_def)
  from partition_invariance[OF 1 2 3 4 5, of "\<lambda>r. 0" 0]
  obtain outs b' where l: "length outs = length grids"
    and w: "\<forall>r<length grids. \<exists>k'.
                 update_block (grids ! r) (ghost_above grids r) (ghost_below grids r) 0 0
                   (\<lambda>n. 1 / 2) 0 = Inr (outs ! r, k')
                 \<and> worker_step grids r 0 0 (\<lambda>n. 1 / 2) 0 = Inr (outs ! r, k')"
    and u: "\<exists>k'. update_block G None None 0 0 (\<lambda>n. 1 / 2) 0 = Inr (b', k')"
    and e: "b' = \<lparr>ncols = ncols G, rows = concat (map rows outs)\<rparr>"
    by blast
  have w0: "\<exists>k'. worker_step grids 0 0 0 (\<lambda>n. 1 / 2) 0 = Inr (outs ! 0, k')"
    using w[rule_format, of 0] by (auto simp: grids_def)
  have w1: "\<exists>k'. worker_step grids 1 0 0 (\<lambda>n. 1 / 2) 0 = Inr (outs ! 1, k')"
    using w[rule_format, of 1] by (auto simp: grids_def)
  have "\<exists>outs b'. length outs = 2
         \<and> (\<exists>k'. worker_step grids 0 0 0 (\<lambda>n. 1 / 2) 0 = Inr (outs ! 0, k'))
         \<and> (\<exists>k'. worker_step grids 1 0 0 (\<lambda>n. 1 / 2) 0 = Inr (outs ! 1, k'))
         \<and> (\<exists>k'. update_block G None None 0 0 (\<lambda>n. 1 / 2) 0 = Inr (b', k'))
         \<and> b' = \<lparr>ncols = 4, rows = concat (map rows outs)\<rparr>"
    using l w0 w1 u e by (intro exI[of _ outs] exI[of _ b']) (simp add: grids_def G_def)
  then show ?thesis
    using 1 3 4 6 7 unfolding G_def grids_def by simp
qed

subsection \<open>C2: The partition planner\<close>

text \<open>
  C2. For \<open>Nx \<ge> num_workers > 0\<close> the planner returns, for every rank
  \<open>0 \<le> r < num_workers\<close>, the range
  \<open>[r * (Nx div num_workers), i1)\<close> with \<open>i1 = Nx\<close> for the highest rank and
  \<open>(r + 1) * (Nx div num_workers)\<close> otherwise. These ranges are non-empty and lie inside
  \<open>[0, Nx)\<close>; rank 0 starts at 0 and the highest rank ends at \<open>Nx\<close>; each range ends
  where the next one starts (contiguous), a lower rank's range ends before a higher rank's
  begins (ordered by rank), two different ranks never share a row (pairwise disjoint), and
  the union of all ranges is exactly \<open>[0, Nx)\<close>. Every rank but the highest owns
  \<open>Nx div num_workers\<close> rows, and the highest owns these plus the whole remainder
  \<open>Nx mod num_workers\<close>.
\<close>

theorem planner_partition:
  fixes Nx W :: int
  assumes "0 < W" and "W \<le> Nx"
  shows "(\<forall>r. 0 \<le> r \<and> r < W \<longrightarrow>
            planner Nx W r =
              Inr (r * (Nx div W), if r = W - 1 then Nx else (r + 1) * (Nx div W)))
       \<and> (\<forall>r. 0 \<le> r \<and> r < W \<longrightarrow>
            (\<exists>i0 i1. planner Nx W r = Inr (i0, i1) \<and> 0 \<le> i0 \<and> i0 < i1 \<and> i1 \<le> Nx))
       \<and> (\<exists>i1. planner Nx W 0 = Inr (0, i1))
       \<and> (\<exists>i0. planner Nx W (W - 1) = Inr (i0, Nx))
       \<and> (\<forall>r. 0 \<le> r \<and> r + 1 < W \<longrightarrow>
            (\<exists>a b c. planner Nx W r = Inr (a, b) \<and> planner Nx W (r + 1) = Inr (b, c)))
       \<and> (\<forall>r s. 0 \<le> r \<and> r < s \<and> s < W \<longrightarrow>
            (\<exists>a b c d. planner Nx W r = Inr (a, b) \<and> planner Nx W s = Inr (c, d) \<and> b \<le> c))
       \<and> (\<forall>r s. 0 \<le> r \<and> r < W \<and> 0 \<le> s \<and> s < W \<and> r \<noteq> s \<longrightarrow>
            range_of Nx W r \<inter> range_of Nx W s = {})
       \<and> (\<Union>r\<in>{0..<W}. range_of Nx W r) = {0..<Nx}
       \<and> (\<forall>r. 0 \<le> r \<and> r < W - 1 \<longrightarrow> my_rows Nx W r = Inr (Nx div W))
       \<and> my_rows Nx W (W - 1) = Inr (Nx div W + Nx mod W)"
proof -
  have W0: "W \<noteq> 0" using assms by simp
  have c1: "\<forall>r. 0 \<le> r \<and> r < W \<longrightarrow>
            planner Nx W r =
              Inr (r * (Nx div W), if r = W - 1 then Nx else (r + 1) * (Nx div W))"
    using W0 by (simp add: planner_Inr)
  have c2: "\<forall>r. 0 \<le> r \<and> r < W \<longrightarrow>
            (\<exists>i0 i1. planner Nx W r = Inr (i0, i1) \<and> 0 \<le> i0 \<and> i0 < i1 \<and> i1 \<le> Nx)"
  proof (intro allI impI)
    fix r assume r: "0 \<le> r \<and> r < W"
    have "0 \<le> Nx div W" using div_pos_ge_one[OF assms] by simp
    then have "0 \<le> r * (Nx div W)" using r by simp
    moreover have "r * (Nx div W) < (if r = W - 1 then Nx else (r + 1) * (Nx div W))"
      using lo_lt_hi[OF assms] r by blast
    moreover have "(if r = W - 1 then Nx else (r + 1) * (Nx div W)) \<le> Nx"
      using hi_le_Nx[OF assms] r by blast
    ultimately show "\<exists>i0 i1. planner Nx W r = Inr (i0, i1) \<and> 0 \<le> i0 \<and> i0 < i1 \<and> i1 \<le> Nx"
      using planner_Inr[OF W0, of Nx r] by blast
  qed
  have c3: "\<exists>i1. planner Nx W 0 = Inr (0, i1)"
    using W0 by (simp add: planner_Inr)
  have c4: "\<exists>i0. planner Nx W (W - 1) = Inr (i0, Nx)"
    using W0 by (simp add: planner_Inr)
  have c5: "\<forall>r. 0 \<le> r \<and> r + 1 < W \<longrightarrow>
            (\<exists>a b c. planner Nx W r = Inr (a, b) \<and> planner Nx W (r + 1) = Inr (b, c))"
    using W0 by (auto simp: planner_Inr)
  have c6: "\<forall>r s. 0 \<le> r \<and> r < s \<and> s < W \<longrightarrow>
            (\<exists>a b c d. planner Nx W r = Inr (a, b) \<and> planner Nx W s = Inr (c, d) \<and> b \<le> c)"
  proof (intro allI impI)
    fix r s assume rs: "0 \<le> r \<and> r < s \<and> s < W"
    then have "(if r = W - 1 then Nx else (r + 1) * (Nx div W)) \<le> s * (Nx div W)"
      using hi_le_lo[OF assms] by blast
    then show "\<exists>a b c d. planner Nx W r = Inr (a, b) \<and> planner Nx W s = Inr (c, d) \<and> b \<le> c"
      using planner_Inr[OF W0, of Nx r] planner_Inr[OF W0, of Nx s] by blast
  qed
  have c7: "\<forall>r s. 0 \<le> r \<and> r < W \<and> 0 \<le> s \<and> s < W \<and> r \<noteq> s \<longrightarrow>
            range_of Nx W r \<inter> range_of Nx W s = {}"
  proof (intro allI impI)
    fix r s assume rs: "0 \<le> r \<and> r < W \<and> 0 \<le> s \<and> s < W \<and> r \<noteq> s"
    then consider "r < s" | "s < r" by linarith
    then show "range_of Nx W r \<inter> range_of Nx W s = {}"
    proof cases
      case 1
      then show ?thesis using ranges_disjoint[OF assms, of r s] rs by blast
    next
      case 2
      then show ?thesis using ranges_disjoint[OF assms, of s r] rs by blast
    qed
  qed
  have c8: "(\<Union>r\<in>{0..<W}. range_of Nx W r) = {0..<Nx}"
    by (rule range_union[OF assms])
  have c9: "\<forall>r. 0 \<le> r \<and> r < W - 1 \<longrightarrow> my_rows Nx W r = Inr (Nx div W)"
    using W0 by (auto simp: my_rows_eq algebra_simps)
  have "Nx - (W - 1) * (Nx div W) = Nx div W + Nx mod W"
    by (simp add: algebra_simps minus_mult_div_eq_mod[symmetric] mult.commute)
  then have c10: "my_rows Nx W (W - 1) = Inr (Nx div W + Nx mod W)"
    using W0 by (simp add: my_rows_eq)
  show ?thesis
    using c1 c2 c3 c4 c5 c6 c7 c8 c9 c10 by blast
qed

text \<open>The planner at 10 rows and 3 workers: ranges [0,3), [3,6), [6,10).\<close>

theorem planner_partition_witness:
  "(0::int) < 3 \<and> (3::int) \<le> 10
   \<and> planner 10 3 0 = Inr (0, 3) \<and> planner 10 3 1 = Inr (3, 6) \<and> planner 10 3 2 = Inr (6, 10)
   \<and> (\<Union>r\<in>{0..<3}. range_of 10 3 r) = {0..<10}
   \<and> my_rows 10 3 2 = Inr (3 + 1)"
proof -
  have h1: "(0::int) < 3" and h2: "(3::int) \<le> 10" by simp_all
  note t = planner_partition[OF h1 h2]
  have u: "(\<Union>r\<in>{0..<3}. range_of 10 3 r) = {0..<10}" using t by blast
  have m: "my_rows 10 3 (3 - 1) = Inr (10 div 3 + 10 mod 3)" using t by blast
  have p: "planner 10 3 0 = Inr (0, 3) \<and> planner 10 3 1 = Inr (3, 6) \<and> planner 10 3 2 = Inr (6, 10)"
    by (simp add: planner_def)
  show ?thesis using h1 h2 u m p by simp
qed

subsection \<open>C3: Ignition of trees\<close>

text \<open>
  C3. With \<open>f = 0\<close> (and random draws in \<open>[0, 1)\<close>), for every block and ghost rows and
  every \<open>p\<close>: a TREE cell at local position \<open>(i, j)\<close> is BURN in the returned block if and
  only if one of its Moore-neighbourhood positions in the padded snapshot holds BURN, and
  is TREE otherwise. The cells need not be restricted to the three codes for this.
\<close>

theorem tree_ignition_rule:
  assumes "wf_array block" "ghost_ok (ncols block) tg" "ghost_ok (ncols block) bg"
    and "unit_draws g"
    and "i < nrows block" "j < ncols block" "rows block ! i ! j = TREE"
  shows "\<exists>b' k'. update_block block tg bg p 0 g k = Inr (b', k')
           \<and> (rows b' ! i ! j = BURN \<longleftrightarrow> moore_burning (padded_of block tg bg) (ncols block) i j)
           \<and> rows b' ! i ! j =
               (if moore_burning (padded_of block tg bg) (ncols block) i j then BURN else TREE)"
proof -
  obtain b' k' where r: "update_block block tg bg p 0 g k = Inr (b', k')"
    and cells: "\<forall>i<length (rows block). length (rows b' ! i) = ncols block
                \<and> (\<forall>j<ncols block. \<exists>k''. rows b' ! i ! j =
                      fst (next_cell (padded_of block tg bg) (ncols block) p 0 g i j k''))"
    using update_block_cell[OF assms(1-3), of p 0 g k] by blast
  have i: "i < length (rows block)" using assms(5) by (simp add: nrows_def)
  then obtain k'' where "rows b' ! i ! j =
        fst (next_cell (padded_of block tg bg) (ncols block) p 0 g i j k'')"
    using cells assms(6) by blast
  moreover have "padded_of block tg bg ! (i + 1) ! j = TREE"
    using assms(7) padded_of_nth[OF i, of tg bg] by simp
  moreover have "0 \<le> g k''" using assms(4) by (simp add: unit_draws_def)
  ultimately have "rows b' ! i ! j =
      (if moore_burning (padded_of block tg bg) (ncols block) i j then BURN else TREE)"
    using next_cell_tree by metis
  then show ?thesis using r by (auto simp: TREE_def BURN_def)
qed

text \<open>The block of rows 2--3 of a 4 by 4 grid of trees, with the row above holding a burning cell.\<close>

theorem tree_ignition_rule_witness:
  "wf_array \<lparr>ncols = 4, rows = [[1, 1, 1, 1], [1, 1, 1, 1]]\<rparr>
   \<and> ghost_ok 4 (Some [1, 1, 2, 1]) \<and> ghost_ok 4 None \<and> unit_draws (\<lambda>n. 1/2)
   \<and> rows \<lparr>ncols = 4, rows = [[1, 1, 1, 1], [1, 1, 1, 1]]\<rparr> ! 0 ! 1 = TREE
   \<and> moore_burning
        (padded_of \<lparr>ncols = 4, rows = [[1, 1, 1, 1], [1, 1, 1, 1]]\<rparr> (Some [1, 1, 2, 1]) None)
        4 0 1
   \<and> (\<exists>b' k'. update_block \<lparr>ncols = 4, rows = [[1, 1, 1, 1], [1, 1, 1, 1]]\<rparr>
                   (Some [1, 1, 2, 1]) None (1/3) 0 (\<lambda>n. 1/2) 0 = Inr (b', k')
                 \<and> rows b' ! 0 ! 1 = BURN)"
proof -
  have mb: "moore_burning
        (padded_of \<lparr>ncols = 4, rows = [[1, 1, 1, 1], [1, 1, 1, 1]]\<rparr> (Some [1, 1, 2, 1]) None)
        4 0 1"
    by (simp add: moore_burning_def moore_positions_def padded_of_def ghost_or_empty_def BURN_def)
  show ?thesis
    using tree_ignition_rule[of "\<lparr>ncols = 4, rows = [[1, 1, 1, 1], [1, 1, 1, 1]]\<rparr>"
        "Some [1, 1, 2, 1]" None "\<lambda>n. 1/2" 0 1 "1/3" 0] mb
    by (simp add: wf_array_def ghost_ok_def nrows_def unit_draws_def TREE_def)
qed

subsection \<open>C4: The cell codes of the output\<close>

text \<open>
  C4. For every rectangular input block, whatever 8-bit values its cells hold, every
  ghost-row argument and every \<open>p\<close>, \<open>f\<close> and generator state: every cell of a block
  returned by \<open>update_block\<close> is EMPTY, TREE or BURN. The call returns a block exactly when
  each ghost row given has \<open>Ny\<close> elements (otherwise \<^verbatim>\<open>reshape\<close> raises ValueError).
\<close>

theorem update_block_codomain:
  assumes "wf_array block"
  shows "(\<forall>b' k'. update_block block tg bg p f g k = Inr (b', k') \<longrightarrow> valid_cells (rows b'))
       \<and> ((\<exists>b' k'. update_block block tg bg p f g k = Inr (b', k'))
            \<longleftrightarrow> ghost_ok (ncols block) tg \<and> ghost_ok (ncols block) bg)"
proof (cases "ghost_ok (ncols block) tg \<and> ghost_ok (ncols block) bg")
  case False
  then show ?thesis using update_block_err[of block tg bg p f g k] by simp
next
  case True
  then obtain b' k' where r: "update_block block tg bg p f g k = Inr (b', k')"
    and len: "length (rows b') = length (rows block)"
    and cells: "\<forall>i<length (rows block). length (rows b' ! i) = ncols block
                \<and> (\<forall>j<ncols block. \<exists>k''. rows b' ! i ! j =
                      fst (next_cell (padded_of block tg bg) (ncols block) p f g i j k''))"
    using update_block_cell[OF assms, of tg bg p f g k] by blast
  have "valid_cells (rows b')"
    unfolding valid_cells_def list_all_length
  proof (intro allI impI)
    fix i j assume i: "i < length (rows b')" and j: "j < length (rows b' ! i)"
    then obtain k'' where "rows b' ! i ! j =
        fst (next_cell (padded_of block tg bg) (ncols block) p f g i j k'')"
      using cells len by force
    then show "valid_cell (rows b' ! i ! j)" by (simp add: next_cell_valid)
  qed
  then show ?thesis using r True by simp
qed

text \<open>A block with two cells outside the three codes.\<close>

theorem update_block_codomain_witness:
  "wf_array \<lparr>ncols = 2, rows = [[7, 1], [2, 100]]\<rparr>
   \<and> update_block \<lparr>ncols = 2, rows = [[7, 1], [2, 100]]\<rparr> None (Some [2, 9]) (1/2) (1/2)
         (\<lambda>n. if even n then 1/4 else 3/4) 0
       = Inr (\<lparr>ncols = 2, rows = [[1, 2], [0, 0]]\<rparr>, 2)
   \<and> valid_cells [[1, 2], [0, 0]]"
proof -
  have wf: "wf_array \<lparr>ncols = 2, rows = [[7, 1], [2, 100]]\<rparr>"
    by (simp add: wf_array_def)
  have ev: "update_block \<lparr>ncols = 2, rows = [[7, 1], [2, 100]]\<rparr> None (Some [2, 9]) (1/2) (1/2)
         (\<lambda>n. if even n then 1/4 else 3/4) 0
       = Inr (\<lparr>ncols = 2, rows = [[1, 2], [0, 0]]\<rparr>, 2)"
    by (simp add: update_block_def pad_row_def cell_update_def neighbour_burning_def
        setitem_def EMPTY_def TREE_def BURN_def upt_rec Let_def)
  have "valid_cells (rows \<lparr>ncols = 2, rows = [[1, 2], [0, 0]]\<rparr>)"
    using update_block_codomain[OF wf, of None "Some [2, 9]" "1/2" "1/2"
        "\<lambda>n. if even n then 1/4 else 3/4" 0] ev by blast
  then show ?thesis using wf ev by simp
qed

subsection \<open>C5: Absent ghost rows\<close>

text \<open>
  C5. For every block, \<open>p\<close>, \<open>f\<close> and generator state (the same stream of draws on both
  sides), \<open>update_block\<close> with an absent top ghost returns what it returns with a top ghost
  row of \<open>Ny\<close> EMPTY cells, and the same for the bottom ghost.
\<close>

theorem absent_ghost_is_empty_row:
  "update_block block None bg p f g k =
     update_block block (Some (replicate (ncols block) EMPTY)) bg p f g k
   \<and> update_block block tg None p f g k =
     update_block block tg (Some (replicate (ncols block) EMPTY)) p f g k"
  unfolding update_block_def pad_row_None by simp

subsection \<open>C6: Burning cells\<close>

text \<open>
  C6. For every block, ghost rows, \<open>p\<close>, \<open>f\<close> and generator state, \<open>update_block\<close> returns
  a block in which every position that held BURN in the input holds EMPTY, whatever the
  neighbours. The sequential \<open>step\<close> on the same block does the same.
\<close>

theorem burning_becomes_empty:
  assumes "wf_array block" "ghost_ok (ncols block) tg" "ghost_ok (ncols block) bg"
    and "i < nrows block" "j < ncols block" "rows block ! i ! j = BURN"
  shows "(\<exists>b' k'. update_block block tg bg p f g k = Inr (b', k') \<and> rows b' ! i ! j = EMPTY)
       \<and> rows (fst (step block p f g k)) ! i ! j = EMPTY"
proof -
  obtain b' k' where r: "update_block block tg bg p f g k = Inr (b', k')"
    and cells: "\<forall>i<length (rows block). length (rows b' ! i) = ncols block
                \<and> (\<forall>j<ncols block. \<exists>k''. rows b' ! i ! j =
                      fst (next_cell (padded_of block tg bg) (ncols block) p f g i j k''))"
    using update_block_cell[OF assms(1-3), of p f g k] by blast
  have i: "i < length (rows block)" using assms(4) by (simp add: nrows_def)
  then obtain k'' where "rows b' ! i ! j =
        fst (next_cell (padded_of block tg bg) (ncols block) p f g i j k'')"
    using cells assms(5) by blast
  moreover have "padded_of block tg bg ! (i + 1) ! j = BURN"
    using assms(6) padded_of_nth[OF i, of tg bg] by simp
  ultimately have "rows b' ! i ! j = EMPTY" using next_cell_burn by metis
  moreover have "rows (fst (step block p f g k)) ! i ! j = EMPTY"
    using step_cell[OF assms(1) i assms(5), of p f g k] assms(6)
    by (simp add: EMPTY_def TREE_def BURN_def)
  ultimately show ?thesis using r by blast
qed

text \<open>A block of one row with a burning cell, below a ghost row of burning cells.\<close>

theorem burning_becomes_empty_witness:
  "wf_array \<lparr>ncols = 2, rows = [[1, 2]]\<rparr>
   \<and> ghost_ok 2 (Some [2, 2]) \<and> ghost_ok 2 None
   \<and> rows \<lparr>ncols = 2, rows = [[1, 2]]\<rparr> ! 0 ! 1 = BURN
   \<and> (\<exists>b' k'. update_block \<lparr>ncols = 2, rows = [[1, 2]]\<rparr> (Some [2, 2]) None 1 1 (\<lambda>n. 1/2) 0
                 = Inr (b', k') \<and> rows b' ! 0 ! 1 = EMPTY)
   \<and> rows (fst (step \<lparr>ncols = 2, rows = [[1, 2]]\<rparr> 1 1 (\<lambda>n. 1/2) 0)) ! 0 ! 1 = EMPTY"
  using burning_becomes_empty[of "\<lparr>ncols = 2, rows = [[1, 2]]\<rparr>" "Some [2, 2]" None 0 1
      1 1 "\<lambda>n. 1/2" 0]
  by (simp add: wf_array_def ghost_ok_def nrows_def BURN_def)

subsection \<open>C7: The sequential step and the block update\<close>

text \<open>
  C7. For every rectangular grid whose cells are all EMPTY, TREE or BURN, with \<open>p = 0\<close>,
  \<open>f = 0\<close> and draws in \<open>[0, 1)\<close> (the two functions consume different numbers of draws,
  so each has its own generator state here): \<open>update_block\<close> on the whole grid with both
  ghost rows absent returns a block, and it is exactly the grid that the sequential
  \<open>step\<close> returns.
\<close>

theorem step_equals_update_block:
  assumes "wf_array grid" and "valid_cells (rows grid)"
    and "unit_draws g" and "unit_draws g'"
  shows "\<exists>b' k'. update_block grid None None 0 0 g' k0 = Inr (b', k')
           \<and> fst (step grid 0 0 g k) = b'"
proof -
  obtain k' where u: "update_block grid None None 0 0 g' k0 =
      Inr (grid\<lparr>rows := det_rows (padded_of grid None None) (ncols grid)
                           (length (rows grid))\<rparr>, k')"
    using update_block_det[OF assms(1) _ _ assms(4), of None None k0]
    by (auto simp: ghost_ok_def)
  have "fst (step grid 0 0 g k) =
      grid\<lparr>rows := det_rows (padded_of grid None None) (ncols grid) (length (rows grid))\<rparr>"
    using step_record[of grid 0 0 g k] step_det[OF assms(1-3), of k] by simp
  then show ?thesis using u by simp
qed

text \<open>A 4 by 3 grid with two burning corners.\<close>

theorem step_equals_update_block_witness:
  "wf_array \<lparr>ncols = 3, rows = [[2, 1, 0], [1, 1, 1], [1, 1, 1], [0, 1, 2]]\<rparr>
   \<and> valid_cells [[2, 1, 0], [1, 1, 1], [1, 1, 1], [0, 1, 2]]
   \<and> unit_draws (\<lambda>n. 1 / 2) \<and> unit_draws (\<lambda>n. 1 / 3)
   \<and> (\<exists>b' k'. update_block \<lparr>ncols = 3, rows = [[2, 1, 0], [1, 1, 1], [1, 1, 1], [0, 1, 2]]\<rparr>
                   None None 0 0 (\<lambda>n. 1 / 3) 0 = Inr (b', k')
         \<and> fst (step \<lparr>ncols = 3, rows = [[2, 1, 0], [1, 1, 1], [1, 1, 1], [0, 1, 2]]\<rparr>
                   0 0 (\<lambda>n. 1 / 2) 0) = b')"
  using step_equals_update_block[of
      "\<lparr>ncols = 3, rows = [[2, 1, 0], [1, 1, 1], [1, 1, 1], [0, 1, 2]]\<rparr>"
      "\<lambda>n. 1 / 2" "\<lambda>n. 1 / 3" 0 0]
  by (simp add: wf_array_def valid_cells_def valid_cell_def unit_draws_def
      EMPTY_def TREE_def BURN_def)

subsection \<open>C8: The arrays that the update rule writes\<close>

text \<open>
  C8. On a store \<open>h\<close> that holds a rectangular block at address \<open>block\<close> and the ghost rows
  (of \<open>Ny\<close> elements each) at existing addresses, for every \<open>p\<close>, \<open>f\<close> and generator
  state, \<open>update_block\<close> returns the address \<open>new\<close> of an array that did not exist before
  the call (\<open>length h \<le> new\<close>), of the same shape as the block. Every array of \<open>h\<close>, so the
  block and both ghost rows, is found unchanged in the final store. The returned array and
  generator position are those of the function \<open>update_block\<close> of the values of the
  block and ghost rows alone, and each of its cells is the value that the rule gives at
  that position of the padded snapshot of the old block, for some position of the generator:
  no cell is computed from a cell already written in this step.
\<close>

theorem update_block_frame:
  assumes "block < length h" and "wf_array (h ! block)"
    and "addr_ok h tg" and "addr_ok h bg"
    and "ghost_ok (ncols (h ! block)) (ghost_val h tg)"
    and "ghost_ok (ncols (h ! block)) (ghost_val h bg)"
  shows "\<exists>new h' k'. update_block_store h block tg bg p f g k = Inr (new, h', k')
           \<and> length h \<le> new \<and> new < length h'
           \<and> take (length h) h' = h \<and> h' ! block = h ! block
           \<and> ncols (h' ! new) = ncols (h ! block) \<and> nrows (h' ! new) = nrows (h ! block)
           \<and> wf_array (h' ! new)
           \<and> update_block (h ! block) (ghost_val h tg) (ghost_val h bg) p f g k
               = Inr (h' ! new, k')
           \<and> (\<forall>i<nrows (h ! block). \<forall>j<ncols (h ! block). \<exists>k''.
                 rows (h' ! new) ! i ! j =
                   fst (next_cell (padded_of (h ! block) (ghost_val h tg) (ghost_val h bg))
                          (ncols (h ! block)) p f g i j k''))"
proof -
  define B where "B = h ! block"
  define tgv where "tgv = ghost_val h tg"
  define bgv where "bgv = ghost_val h bg"
  define e where "e = pad_alloc (ncols B) tg @ pad_alloc (ncols B) bg
                       @ [\<lparr>ncols = ncols B, rows = padded_of B tgv bgv\<rparr>]"
  obtain b' k' where pure: "update_block B tgv bgv p f g k = Inr (b', k')"
    and store: "update_block_store h block tg bg p f g k =
                  Inr (length h + length e, h @ e @ [b'], k')"
    using update_block_store_eq[OF assms(1,3,4,5,6), of p f g k]
    by (auto simp: B_def tgv_def bgv_def e_def)
  obtain b'' k'' where pure': "update_block B tgv bgv p f g k = Inr (b'', k'')"
    and nc: "ncols b'' = ncols B" and nr: "length (rows b'') = length (rows B)"
    and cells: "\<forall>i<length (rows B). length (rows b'' ! i) = ncols B
                \<and> (\<forall>j<ncols B. \<exists>k''. rows b'' ! i ! j =
                      fst (next_cell (padded_of B tgv bgv) (ncols B) p f g i j k''))"
    using update_block_cell[of B tgv bgv p f g k] assms(2,5,6)
    by (auto simp: B_def tgv_def bgv_def)
  have same: "b'' = b'" using pure pure' by simp
  define new where "new = length h + length e"
  define h' where "h' = h @ e @ [b']"
  have n: "h' ! new = b'" by (simp add: h'_def new_def nth_append)
  have wf: "wf_array b'"
    using cells nr nc same by (simp add: wf_array_def list_all_length)
  have "length h \<le> new" "new < length h'" "take (length h) h' = h"
    by (simp_all add: new_def h'_def)
  moreover have "h' ! block = h ! block" using assms(1) by (simp add: h'_def nth_append)
  moreover have "ncols (h' ! new) = ncols B" "nrows (h' ! new) = nrows B"
    using nc nr same n by (simp_all add: nrows_def)
  moreover have "wf_array (h' ! new)" using wf n by simp
  moreover have "update_block B tgv bgv p f g k = Inr (h' ! new, k')" using pure n by simp
  moreover have "\<forall>i<nrows B. \<forall>j<ncols B. \<exists>k''.
                 rows (h' ! new) ! i ! j =
                   fst (next_cell (padded_of B tgv bgv) (ncols B) p f g i j k'')"
    using cells same n by (simp add: nrows_def)
  ultimately show ?thesis
    using store unfolding B_def tgv_def bgv_def new_def[symmetric] h'_def[symmetric]
    by blast
qed

text \<open>A store with a block of two rows at address 0 and its top ghost row at address 1.\<close>

theorem update_block_frame_witness:
  "wf_array ([\<lparr>ncols = 4, rows = [[1, 1, 1, 1], [1, 1, 1, 1]]\<rparr>,
              \<lparr>ncols = 4, rows = [[1, 1, 2, 1]]\<rparr>] ! 0)
   \<and> addr_ok [\<lparr>ncols = 4, rows = [[1, 1, 1, 1], [1, 1, 1, 1]]\<rparr>,
               \<lparr>ncols = 4, rows = [[1, 1, 2, 1]]\<rparr>] (Some 1)
   \<and> ghost_val [\<lparr>ncols = 4, rows = [[1, 1, 1, 1], [1, 1, 1, 1]]\<rparr>,
                 \<lparr>ncols = 4, rows = [[1, 1, 2, 1]]\<rparr>] (Some 1) = Some [1, 1, 2, 1]
   \<and> (\<exists>new h' k'.
         update_block_store [\<lparr>ncols = 4, rows = [[1, 1, 1, 1], [1, 1, 1, 1]]\<rparr>,
                             \<lparr>ncols = 4, rows = [[1, 1, 2, 1]]\<rparr>] 0 (Some 1) None
             (1 / 3) (1 / 4) (\<lambda>n. 1 / 2) 0 = Inr (new, h', k')
         \<and> 2 \<le> new \<and> new < length h'
         \<and> take 2 h' = [\<lparr>ncols = 4, rows = [[1, 1, 1, 1], [1, 1, 1, 1]]\<rparr>,
                          \<lparr>ncols = 4, rows = [[1, 1, 2, 1]]\<rparr>]
         \<and> wf_array (h' ! new))"
proof -
  define h where "h = [\<lparr>ncols = 4, rows = [[1, 1, 1, 1], [1, 1, 1, 1]]\<rparr>,
                       \<lparr>ncols = 4, rows = [[1, 1, 2, 1 :: cell]]\<rparr>]"
  have 1: "0 < length h" and 2: "wf_array (h ! 0)" and 3: "addr_ok h (Some 1)"
    and 4: "addr_ok h None" and 5: "ghost_ok (ncols (h ! 0)) (ghost_val h (Some 1))"
    and 6: "ghost_ok (ncols (h ! 0)) (ghost_val h None)"
    and 7: "ghost_val h (Some 1) = Some [1, 1, 2, 1]" and 8: "length h = 2"
    by (simp_all add: h_def wf_array_def addr_ok_def ghost_ok_def ghost_val_def)
  from update_block_frame[OF 1 2 3 4 5 6, of "1 / 3" "1 / 4" "\<lambda>n. 1 / 2" 0]
  have "\<exists>new h' k'.
         update_block_store h 0 (Some 1) None (1 / 3) (1 / 4) (\<lambda>n. 1 / 2) 0 = Inr (new, h', k')
         \<and> 2 \<le> new \<and> new < length h' \<and> take 2 h' = h \<and> wf_array (h' ! new)"
    unfolding 8 by blast
  then show ?thesis using 2 3 7 unfolding h_def by simp
qed

subsection \<open>C9: Validation of the configuration\<close>

text \<open>
  C9 (as stated: with \<open>num_workers \<le> 0\<close> or \<open>Nx < num_workers\<close> the planner fails with
  InvalidConfiguration and returns no row range). The source has no such check: with 2 rows
  and 4 workers rank 0 is given the empty range [0,0), with \<open>-2\<close> workers rank 0 is given
  the range \<open>(0, -5)\<close>, and with 0 workers the division raises ZeroDivisionError.
\<close>

theorem planner_validation_counterexample:
  "planner 2 4 0 = Inr (0, 0) \<and> planner 10 (- 2) 0 = Inr (0, - 5)
   \<and> planner 10 0 0 = Inl ZeroDivisionError \<and> planner 10 0 0 \<noteq> Inl InvalidConfiguration"
  by (simp add: planner_def)

text \<open>
  C9 (amended). The planner validates nothing. With \<open>num_workers = 0\<close> it fails with
  ZeroDivisionError; for every other input, including \<open>num_workers < 0\<close> and
  \<open>Nx < num_workers\<close>, it returns the row range given by its formula. It never fails with
  InvalidConfiguration. In particular, with \<open>0 \<le> Nx < num_workers\<close> every rank but the
  highest is given the empty range \<open>[0, 0)\<close> and the highest rank is given \<open>[0, Nx)\<close>.
\<close>

theorem planner_no_validation:
  "planner Nx W r =
     (if W = 0 then Inl ZeroDivisionError
      else Inr (r * (Nx div W), if r = W - 1 then Nx else (r + 1) * (Nx div W)))
   \<and> planner Nx W r \<noteq> Inl InvalidConfiguration
   \<and> (W \<le> 0 \<or> Nx < W \<longrightarrow>
        planner Nx W r = Inl ZeroDivisionError \<or> (\<exists>i0 i1. planner Nx W r = Inr (i0, i1)))
   \<and> (0 \<le> Nx \<and> Nx < W \<longrightarrow> planner Nx W r = Inr (0, if r = W - 1 then Nx else 0))"
proof -
  have eq: "planner Nx W r =
     (if W = 0 then Inl ZeroDivisionError
      else Inr (r * (Nx div W), if r = W - 1 then Nx else (r + 1) * (Nx div W)))"
    by (simp add: planner_def Let_def)
  have small: "planner Nx W r = Inr (0, if r = W - 1 then Nx else 0)" if "0 \<le> Nx \<and> Nx < W"
  proof -
    have "Nx div W = 0" using that by (simp add: div_pos_pos_trivial)
    moreover have "W \<noteq> 0" using that by auto
    ultimately show ?thesis unfolding eq by simp
  qed
  show ?thesis
    using eq small by auto
qed

text \<open>
  With 2 rows and 4 workers no rank fails: ranks 0 to 2 are given no row and rank 3 is
  given both.
\<close>

theorem planner_no_validation_witness:
  "(0::int) \<le> 2 \<and> (2::int) < 4
   \<and> planner 2 4 0 = Inr (0, 0) \<and> planner 2 4 1 = Inr (0, 0) \<and> planner 2 4 2 = Inr (0, 0)
   \<and> planner 2 4 3 = Inr (0, 2)"
  using planner_no_validation[of 2 4 0] planner_no_validation[of 2 4 1]
    planner_no_validation[of 2 4 2] planner_no_validation[of 2 4 3]
  by simp

subsection \<open>C10: Failures of the connection to the upper neighbour\<close>

text \<open>
  C10 (as stated: an attempt that fails for a reason other than connection refused is a
  fatal SetupFailure and is not retried). When the first attempt fails with such an error
  and the second succeeds, the worker of rank 1 sleeps once, retries and is connected.
\<close>

theorem setup_failure_counterexample:
  "connect_up 1 (\<lambda>n. if n = 0 then OtherFailure else Connects)
     = Some (Inr \<lparr>up_sock = True, attempts = 2, sleeps = 1\<rparr>)
   \<and> connect_up 1 (\<lambda>n. if n = 0 then OtherFailure else Connects) \<noteq> Some (Inl SetupFailure)"
proof -
  have "connect_loop (\<lambda>n. if n = 0 then OtherFailure else Connects) (Suc 0)
          = Some (Inr \<lparr>up_sock = True, attempts = 2, sleeps = 1\<rparr>)"
    by (subst connect_loop.simps) simp
  then have "connect_loop (\<lambda>n. if n = 0 then OtherFailure else Connects) 0
          = Some (Inr \<lparr>up_sock = True, attempts = 2, sleeps = 1\<rparr>)"
    by (subst connect_loop.simps) simp
  then show ?thesis by (simp add: connect_up_def)
qed

text \<open>
  C10 (amended). The connection loop does not tell failures apart: every failed attempt,
  connection refused or any other exception, is followed by \<^verbatim>\<open>time.sleep(0.05)\<close> and a
  new attempt. For a worker of rank above 0, if attempt number \<open>n\<close> (from 0) is the first
  that succeeds, the loop ends with \<^verbatim>\<open>up_sock\<close> set after \<open>n + 1\<close> attempts and \<open>n\<close> sleeps;
  if no attempt ever succeeds it never ends. No run ends with an error, so SetupFailure is
  never raised.
\<close>

theorem connect_retries_every_failure:
  "(\<forall>n. 0 < rank \<and> env n = Connects \<and> (\<forall>m<n. env m \<noteq> Connects) \<longrightarrow>
        connect_up rank env = Some (Inr \<lparr>up_sock = True, attempts = Suc n, sleeps = n\<rparr>))
   \<and> (0 < rank \<and> (\<forall>n. env n \<noteq> Connects) \<longrightarrow> connect_up rank env = None)
   \<and> (\<forall>e. connect_up rank env \<noteq> Some (Inl e))"
proof (intro conjI allI impI)
  fix n assume "0 < rank \<and> env n = Connects \<and> (\<forall>m<n. env m \<noteq> Connects)"
  then show "connect_up rank env = Some (Inr \<lparr>up_sock = True, attempts = Suc n, sleeps = n\<rparr>)"
    using connect_loop_reaches[of env n 0] by (simp add: connect_up_def)
next
  assume "0 < rank \<and> (\<forall>n. env n \<noteq> Connects)"
  then show "connect_up rank env = None"
    using connect_loop_diverges[of env 0] by (simp add: connect_up_def)
next
  fix e
  show "connect_up rank env \<noteq> Some (Inl e)"
  proof (cases "0 < rank")
    case True
    show ?thesis
    proof
      assume "connect_up rank env = Some (Inl e)"
      then have "connect_loop env 0 = Some (Inl e)" using True by (simp add: connect_up_def)
      from connect_loop_returns[OF this] show False by blast
    qed
  next
    case False
    then show ?thesis by (simp add: connect_up_def)
  qed
qed

text \<open>A refused attempt, then another failure, then success: three attempts, two sleeps.\<close>

theorem connect_retries_every_failure_witness:
  "connect_up 2 (\<lambda>n. if n = 0 then Refused else if n = 1 then OtherFailure else Connects)
     = Some (Inr \<lparr>up_sock = True, attempts = Suc 2, sleeps = 2\<rparr>)
   \<and> connect_up 2 (\<lambda>n. if n = 0 then Refused else if n = 1 then OtherFailure else Connects)
     \<noteq> Some (Inl SetupFailure)"
  using connect_retries_every_failure[of 2
      "\<lambda>n. if n = 0 then Refused else if n = 1 then OtherFailure else Connects"]
  by (auto simp: less_Suc_eq numeral_2_eq_2)

end
